theory Spec2Isabelle
  imports Main "HOL-Library.AList"
begin

section \<open>The agent event bus and active-run registry (src/infra/agent-events.ts)\<close>

subsection \<open>Values, errors and results\<close>

text \<open>
  A JavaScript string is a list of characters; the characters of the model are the code
  units below 256. A value whose type the source tests at run time (\<open>typeof\<close>) is a
  \<open>js_value\<close>. An optional field (\<open>f?: T\<close>) is an \<open>option\<close>: \<open>None\<close> is
  \<open>undefined\<close>.
\<close>

datatype js_value =
    JSUndefined
  | JSNull
  | JSBool bool
  | JSNumber int
  | JSString string

text \<open>
  What a call can throw. Nothing in agent-events.ts constructs an error itself; a
  subscriber may throw anything (\<open>Thrown\<close>). \<open>InvalidArgument\<close> is the error named
  by the specification for an empty run id.
\<close>

datatype error = InvalidArgument | Thrown string

text \<open>
  The result of a call on a state: it returned, or it threw with the state as it was at
  the throw (side effects before a throw stay).
\<close>

datatype 'a result = Returned 'a | Threw error 'a

fun state_of :: "'a result \<Rightarrow> 'a" where
  "state_of (Returned s) = s"
| "state_of (Threw e s) = s"

fun returned :: "'a result \<Rightarrow> bool" where
  "returned (Returned s) = True"
| "returned (Threw e s) = False"

text \<open>\<open>try { body } catch { /* ignore */ }\<close>\<close>

fun try_catch_ignore :: "'a result \<Rightarrow> 'a" where
  "try_catch_ignore (Returned s) = s"
| "try_catch_ignore (Threw e s) = s"

subsection \<open>The module's data\<close>

text \<open>
  \<open>VerboseLevel\<close> is declared in auto-reply/thinking.js; the tests pass the string
  literals "off", "on" and "full", so a level is a string here. A string is truthy when
  it is not empty.
\<close>

type_synonym VerboseLevel = string

record AgentRunContext =
  sessionKey :: "string option"
  verboseLevel :: "VerboseLevel option"
  isHeartbeat :: "bool option"

text \<open>The argument of \<open>emitAgentEvent\<close>: an \<open>AgentEventPayload\<close> without \<open>seq\<close> and \<open>ts\<close>.\<close>

record AgentEvent =
  ev_runId :: string
  ev_stream :: string
  ev_data :: "(string \<times> js_value) list"
  ev_sessionKey :: js_value

record AgentEventPayload =
  runId :: string
  seq :: nat
  stream :: string
  ts :: nat
  data :: "(string \<times> js_value) list"
  payload_sessionKey :: "string option"

text \<open>The calls of \<open>agentLog\<close>, with the values interpolated into each message.\<close>

datatype log_message =
    RunRegistered string nat
  | RunCleared string nat
  | ForceClearingStale string nat

datatype log_entry = Debug log_message | Warn log_message

text \<open>
  A \<open>Map\<close> whose iteration order the code relies on is an association list in insertion
  order: \<open>set\<close> on a present key replaces the value in place, on a new key appends
  (\<open>AList.update\<close>); \<open>delete\<close> removes the entry (\<open>AList.delete\<close>). The other maps are
  partial functions.

  A \<open>Set\<close> of functions holds references: a subscriber is a pair of a handle (its
  identity) and its behaviour. The behaviour of a completion callback \<open>() => void\<close> is a
  function of what it can read of the registry (the run contexts) and of the state \<open>'w\<close>
  of everything outside this module; it returns or throws. Subscribers do not call back
  into the registering, clearing or emitting functions of this module.

  Time is the clock read by \<open>Date.now()\<close>, in milliseconds. \<open>timers\<close> holds the pending
  \<open>setTimeout\<close> closures of \<open>registerAgentRunContext\<close>: the time each is due and the
  run id it captured.
\<close>

type_synonym 'w completion_callback = "(string \<times> AgentRunContext) list \<Rightarrow> 'w \<Rightarrow> 'w result"
type_synonym 'w event_listener = "AgentEventPayload \<Rightarrow> 'w \<Rightarrow> 'w result"

record 'w agent_state =
  seqByRun :: "string \<rightharpoonup> nat"
  listeners :: "(nat \<times> 'w event_listener) list"
  runContextById :: "(string \<times> AgentRunContext) list"
  runCompletionCallbacks :: "(nat \<times> 'w completion_callback) list"
  runStartTimes :: "string \<rightharpoonup> nat"
  now :: nat
  timers :: "(nat \<times> string) list"
  agentLog :: "log_entry list"
  world :: 'w

definition MAX_RUN_DURATION_MS :: nat where
  "MAX_RUN_DURATION_MS = 10 * 60 * 1000"

definition initial_state :: "nat \<Rightarrow> 'w \<Rightarrow> 'w agent_state" where
  "initial_state t w =
     \<lparr> seqByRun = Map.empty, listeners = [], runContextById = [],
       runCompletionCallbacks = [], runStartTimes = Map.empty,
       now = t, timers = [], agentLog = [], world = w \<rparr>"

text \<open>\<open>Set.add\<close>: a reference already in the set is not added again.\<close>

definition set_add :: "nat \<times> 'f \<Rightarrow> (nat \<times> 'f) list \<Rightarrow> (nat \<times> 'f) list" where
  "set_add cb cbs = (if fst cb \<in> fst ` set cbs then cbs else cbs @ [cb])"

definition set_delete :: "nat \<Rightarrow> (nat \<times> 'f) list \<Rightarrow> (nat \<times> 'f) list" where
  "set_delete h cbs = filter (\<lambda>cb. fst cb \<noteq> h) cbs"

subsection \<open>The registry\<close>

text \<open>
  The three guarded assignments of \<open>registerAgentRunContext\<close> on an existing record.
  \<open>context.sessionKey && ...\<close> tests the truthiness of an optional string: it is
  defined and not empty.
\<close>

definition truthy :: "string option \<Rightarrow> bool" where
  "truthy v = (case v of None \<Rightarrow> False | Some k \<Rightarrow> k \<noteq> [])"

definition merge_context :: "AgentRunContext \<Rightarrow> AgentRunContext \<Rightarrow> AgentRunContext" where
  "merge_context existing context =
     (let e1 = (if truthy (sessionKey context) \<and> sessionKey existing \<noteq> sessionKey context
                then existing\<lparr>sessionKey := sessionKey context\<rparr> else existing);
          e2 = (if truthy (verboseLevel context) \<and> verboseLevel e1 \<noteq> verboseLevel context
                then e1\<lparr>verboseLevel := verboseLevel context\<rparr> else e1);
          e3 = (if isHeartbeat context \<noteq> None \<and> isHeartbeat e2 \<noteq> isHeartbeat context
                then e2\<lparr>isHeartbeat := isHeartbeat context\<rparr> else e2)
      in e3)"

definition registerAgentRunContext ::
  "string \<Rightarrow> AgentRunContext \<Rightarrow> 'w agent_state \<Rightarrow> 'w agent_state result" where
  "registerAgentRunContext rid context s =
     (if rid = [] then Returned s
      else case map_of (runContextById s) rid of
        None \<Rightarrow>
          (let s1 = s\<lparr>runContextById := AList.update rid context (runContextById s)\<rparr>;
               s2 = s1\<lparr>runStartTimes := (runStartTimes s1)(rid \<mapsto> now s1)\<rparr>;
               s3 = s2\<lparr>timers := timers s2 @ [(now s2 + MAX_RUN_DURATION_MS, rid)]\<rparr>;
               s4 = s3\<lparr>agentLog := agentLog s3 @
                       [Debug (RunRegistered rid (length (runContextById s3)))]\<rparr>
           in Returned s4)
      | Some existing \<Rightarrow>
          Returned (s\<lparr>runContextById :=
                       AList.update rid (merge_context existing context) (runContextById s)\<rparr>))"

definition getAgentRunContext :: "string \<Rightarrow> 'w agent_state \<Rightarrow> AgentRunContext option" where
  "getAgentRunContext rid s = map_of (runContextById s) rid"

text \<open>
  The loop over \<open>runCompletionCallbacks\<close>: each call is inside its own
  \<open>try ... catch { /* ignore */ }\<close>.
\<close>

fun notify_callbacks ::
  "(nat \<times> 'w completion_callback) list \<Rightarrow> (string \<times> AgentRunContext) list \<Rightarrow> 'w \<Rightarrow> 'w result" where
  "notify_callbacks [] view w = Returned w"
| "notify_callbacks (cb # cbs) view w =
     notify_callbacks cbs view (try_catch_ignore (snd cb view w))"

definition clearAgentRunContext :: "string \<Rightarrow> 'w agent_state \<Rightarrow> 'w agent_state result" where
  "clearAgentRunContext rid s =
     (let existed = (map_of (runContextById s) rid \<noteq> None);
          s1 = s\<lparr>runContextById := AList.delete rid (runContextById s)\<rparr>;
          s2 = s1\<lparr>runStartTimes := (runStartTimes s1)(rid := None)\<rparr>
      in if existed then
           (let s3 = s2\<lparr>agentLog := agentLog s2 @
                        [Debug (RunCleared rid (length (runContextById s2)))]\<rparr>
            in case notify_callbacks (runCompletionCallbacks s3) (runContextById s3) (world s3) of
                 Returned w \<Rightarrow> Returned (s3\<lparr>world := w\<rparr>)
               | Threw e w \<Rightarrow> Threw e (s3\<lparr>world := w\<rparr>))
         else Returned s2)"

definition onAgentRunComplete ::
  "nat \<times> 'w completion_callback \<Rightarrow> 'w agent_state \<Rightarrow> 'w agent_state" where
  "onAgentRunComplete callback s =
     s\<lparr>runCompletionCallbacks := set_add callback (runCompletionCallbacks s)\<rparr>"

text \<open>The function \<open>onAgentRunComplete\<close> returns: \<open>() => runCompletionCallbacks.delete(callback)\<close>.\<close>

definition unsubscribeRunComplete :: "nat \<Rightarrow> 'w agent_state \<Rightarrow> 'w agent_state" where
  "unsubscribeRunComplete h s =
     s\<lparr>runCompletionCallbacks := set_delete h (runCompletionCallbacks s)\<rparr>"

definition getActiveAgentRunCount :: "'w agent_state \<Rightarrow> nat" where
  "getActiveAgentRunCount s = length (runContextById s)"

definition getActiveAgentRunIds :: "'w agent_state \<Rightarrow> string list" where
  "getActiveAgentRunIds s = map fst (runContextById s)"

subsection \<open>Emitting events\<close>

text \<open>
  \<open>String.prototype.trim\<close> removes white space and line terminators from both ends; of
  these code points, 9 to 13, 32 and 160 are below 256.
\<close>

definition is_white_space :: "char \<Rightarrow> bool" where
  "is_white_space c = ((of_char c :: nat) \<in> {9, 10, 11, 12, 13, 32, 160})"

definition trim :: "string \<Rightarrow> string" where
  "trim k = rev (dropWhile is_white_space (rev (dropWhile is_white_space k)))"

text \<open>
  The local \<open>enriched\<close> of \<open>emitAgentEvent\<close>, from the event and the state before the
  call. A counter is a JavaScript number; it counts exactly up to \<open>2^53\<close>, and the
  model counts in \<open>nat\<close>.
\<close>

definition enriched :: "AgentEvent \<Rightarrow> 'w agent_state \<Rightarrow> AgentEventPayload" where
  "enriched event s =
     (let nextSeq = (case seqByRun s (ev_runId event) of None \<Rightarrow> 0 | Some n \<Rightarrow> n) + 1;
          context = map_of (runContextById s) (ev_runId event);
          context_sessionKey = (case context of None \<Rightarrow> None | Some c \<Rightarrow> sessionKey c);
          sessionKey' = (case ev_sessionKey event of
                           JSString k \<Rightarrow> if trim k \<noteq> [] then Some k else context_sessionKey
                         | _ \<Rightarrow> context_sessionKey)
      in \<lparr> runId = ev_runId event, seq = nextSeq, stream = ev_stream event, ts = now s,
           data = ev_data event, payload_sessionKey = sessionKey' \<rparr>)"

fun notify_listeners ::
  "(nat \<times> 'w event_listener) list \<Rightarrow> AgentEventPayload \<Rightarrow> 'w \<Rightarrow> 'w result" where
  "notify_listeners [] evt w = Returned w"
| "notify_listeners (l # ls) evt w = notify_listeners ls evt (try_catch_ignore (snd l evt w))"

definition emitAgentEvent :: "AgentEvent \<Rightarrow> 'w agent_state \<Rightarrow> 'w agent_state result" where
  "emitAgentEvent event s =
     (let evt = enriched event s;
          s1 = s\<lparr>seqByRun := (seqByRun s)(ev_runId event \<mapsto> seq evt)\<rparr>
      in case notify_listeners (listeners s1) evt (world s1) of
           Returned w \<Rightarrow> Returned (s1\<lparr>world := w\<rparr>)
         | Threw e w \<Rightarrow> Threw e (s1\<lparr>world := w\<rparr>))"

definition onAgentEvent :: "nat \<times> 'w event_listener \<Rightarrow> 'w agent_state \<Rightarrow> 'w agent_state" where
  "onAgentEvent listener s = s\<lparr>listeners := set_add listener (listeners s)\<rparr>"

subsection \<open>The stale-run timers\<close>

text \<open>The closure \<open>registerAgentRunContext\<close> passes to \<open>setTimeout\<close>, for the run id it captured.\<close>

definition stale_run_timeout :: "string \<Rightarrow> 'w agent_state \<Rightarrow> 'w agent_state result" where
  "stale_run_timeout rid s =
     (if map_of (runContextById s) rid \<noteq> None
      then clearAgentRunContext rid
             (s\<lparr>agentLog := agentLog s @ [Warn (ForceClearingStale rid MAX_RUN_DURATION_MS)]\<rparr>)
      else Returned s)"

text \<open>
  The clock: when it moves on by \<open>d\<close> milliseconds, the timers due by then leave the
  pending list and run, earliest first (timers due at the same time in the order they
  were set), each at the time it is due. Nothing that runs sets a new timer.
\<close>

definition fire_timer :: "nat \<times> string \<Rightarrow> 'w agent_state \<Rightarrow> 'w agent_state result" where
  "fire_timer t s = stale_run_timeout (snd t) (s\<lparr>now := max (now s) (fst t)\<rparr>)"

fun run_timers :: "(nat \<times> string) list \<Rightarrow> 'w agent_state \<Rightarrow> 'w agent_state result" where
  "run_timers [] s = Returned s"
| "run_timers (t # rest) s =
     (case fire_timer t s of
        Returned s' \<Rightarrow> run_timers rest s'
      | Threw e s' \<Rightarrow> Threw e s')"

definition advance :: "nat \<Rightarrow> 'w agent_state \<Rightarrow> 'w agent_state result" where
  "advance d s =
     (let target = now s + d;
          due = sort_key fst (filter (\<lambda>t. fst t \<le> target) (timers s));
          s0 = s\<lparr>timers := filter (\<lambda>t. target < fst t) (timers s)\<rparr>
      in case run_timers due s0 of
           Returned s' \<Rightarrow> Returned (s'\<lparr>now := target\<rparr>)
         | Threw e s' \<Rightarrow> Threw e s')"

subsection \<open>Sequences of calls\<close>

datatype registry_call = Register string AgentRunContext | Clear string

fun call_id :: "registry_call \<Rightarrow> string" where
  "call_id (Register rid c) = rid"
| "call_id (Clear rid) = rid"

fun is_register :: "registry_call \<Rightarrow> bool" where
  "is_register (Register rid c) = True"
| "is_register (Clear rid) = False"

fun do_call :: "registry_call \<Rightarrow> 'w agent_state \<Rightarrow> 'w agent_state result" where
  "do_call (Register rid c) s = registerAgentRunContext rid c s"
| "do_call (Clear rid) s = clearAgentRunContext rid s"

fun do_calls :: "registry_call list \<Rightarrow> 'w agent_state \<Rightarrow> 'w agent_state result" where
  "do_calls [] s = Returned s"
| "do_calls (c # cs) s =
     (case do_call c s of
        Returned s' \<Rightarrow> do_calls cs s'
      | Threw e s' \<Rightarrow> Threw e s')"

text \<open>
  The specification's reading of a history of calls: an id is currently registered when
  it is not empty and the last call that names it is a \<open>register\<close>.
\<close>

definition currently_registered :: "registry_call list \<Rightarrow> string \<Rightarrow> bool" where
  "currently_registered calls rid =
     (rid \<noteq> [] \<and>
      (case filter (\<lambda>c. call_id c = rid) calls of
         [] \<Rightarrow> False
       | c # cs \<Rightarrow> is_register (last (c # cs))))"

definition registered_ids :: "registry_call list \<Rightarrow> string set" where
  "registered_ids calls = {rid \<in> set (map call_id calls). currently_registered calls rid}"

text \<open>
  The position, in a history of calls, of the call that created the current record of an
  id: the first \<open>register\<close> of the id after its last \<open>clear\<close> (a \<open>register\<close> of an id
  that is registered only merges).
\<close>

definition after_last_clear :: "registry_call list \<Rightarrow> string \<Rightarrow> nat" where
  "after_last_clear calls rid =
     length calls - length (takeWhile (\<lambda>c. c \<noteq> Clear rid) (rev calls))"

definition creation_index :: "registry_call list \<Rightarrow> string \<Rightarrow> nat" where
  "creation_index calls rid =
     (let k = after_last_clear calls rid
      in k + length (takeWhile (\<lambda>c. \<not> (is_register c \<and> call_id c = rid)) (drop k calls)))"

text \<open>Any interleaving of the module's calls with the passing of time.\<close>

datatype 'w action =
    DoRegister string AgentRunContext
  | DoClear string
  | DoEmit AgentEvent
  | DoAdvance nat
  | DoOnAgentEvent "nat \<times> 'w event_listener"
  | DoOffAgentEvent nat
  | DoOnAgentRunComplete "nat \<times> 'w completion_callback"
  | DoOffAgentRunComplete nat

text \<open>The function \<open>onAgentEvent\<close> returns: \<open>() => listeners.delete(listener)\<close>.\<close>

definition unsubscribeAgentEvent :: "nat \<Rightarrow> 'w agent_state \<Rightarrow> 'w agent_state" where
  "unsubscribeAgentEvent h s = s\<lparr>listeners := set_delete h (listeners s)\<rparr>"

fun perform :: "'w action \<Rightarrow> 'w agent_state \<Rightarrow> 'w agent_state result" where
  "perform (DoRegister rid c) s = registerAgentRunContext rid c s"
| "perform (DoClear rid) s = clearAgentRunContext rid s"
| "perform (DoEmit event) s = emitAgentEvent event s"
| "perform (DoAdvance d) s = advance d s"
| "perform (DoOnAgentEvent l) s = Returned (onAgentEvent l s)"
| "perform (DoOffAgentEvent h) s = Returned (unsubscribeAgentEvent h s)"
| "perform (DoOnAgentRunComplete cb) s = Returned (onAgentRunComplete cb s)"
| "perform (DoOffAgentRunComplete h) s = Returned (unsubscribeRunComplete h s)"

fun perform_all :: "'w action list \<Rightarrow> 'w agent_state \<Rightarrow> 'w agent_state result" where
  "perform_all [] s = Returned s"
| "perform_all (a # acts) s =
     (case perform a s of
        Returned s' \<Rightarrow> perform_all acts s'
      | Threw e s' \<Rightarrow> Threw e s')"

fun emits_for :: "string \<Rightarrow> 'w action \<Rightarrow> bool" where
  "emits_for rid (DoEmit event) = (ev_runId event = rid)"
| "emits_for rid a = False"

text \<open>
  The \<open>seq\<close> values of the payloads emitted for one run id while a sequence of actions is
  performed, in the order of the calls.
\<close>

fun emitted_seqs :: "'w action list \<Rightarrow> 'w agent_state \<Rightarrow> string \<Rightarrow> nat list" where
  "emitted_seqs [] s rid = []"
| "emitted_seqs (a # acts) s rid =
     (case a of
        DoEmit event \<Rightarrow> (if ev_runId event = rid then [seq (enriched event s)] else [])
      | _ \<Rightarrow> [])
     @ emitted_seqs acts (state_of (perform a s)) rid"

section \<open>The restart coordinator\<close>

text \<open>
  Modelled from the spec: the Restart Coordinator (src/gateway/config-reload.ts is not
  among the sources; only its tests and excerpts in the change notes are). The model
  follows section 4.4 of the specification: the states \<open>Idle\<close>, \<open>PlanQueued\<close> and
  \<open>Applying\<close>, \<open>evaluate\<close>, and the completion callback \<open>onRunCompleted\<close>. The count of
  the registry, read at the decision, is an argument. \<open>bridgeCalls\<close> records the
  restart requests made to the Lifecycle Bridge, by their reason, in order.
\<close>

datatype classification = NoOp | HotApply | RestartRequired | Rejected

record ReloadPlan =
  classification :: classification
  changedFields :: "string list"
  reason :: string

datatype coordinator_state = Idle | PlanQueued | Applying

datatype coordinator_log =
    Discarded ReloadPlan
  | Superseded ReloadPlan
  | SupervisorUnreachable string

record coordinator =
  state :: coordinator_state
  queuedRestart :: "ReloadPlan option"
  bridgeCalls :: "string list"
  bridgeReachable :: bool
  hotApplied :: "ReloadPlan list"
  coordinatorLog :: "coordinator_log list"

definition initial_coordinator :: coordinator where
  "initial_coordinator =
     \<lparr> state = Idle, queuedRestart = None, bridgeCalls = [], bridgeReachable = True,
       hotApplied = [], coordinatorLog = [] \<rparr>"

text \<open>
  Modelled from the spec: the restart request to the Lifecycle Bridge; a failed delivery
  is logged and the state stays as it is.
\<close>

definition request_restart :: "string \<Rightarrow> coordinator \<Rightarrow> coordinator" where
  "request_restart r c =
     c\<lparr>bridgeCalls := bridgeCalls c @ [r],
       coordinatorLog := (if bridgeReachable c then coordinatorLog c
                          else coordinatorLog c @ [SupervisorUnreachable r])\<rparr>"

text \<open>Modelled from the spec: \<open>evaluate(plan)\<close>, with \<open>Registry.count()\<close> as \<open>n\<close>.\<close>

definition evaluate :: "ReloadPlan \<Rightarrow> nat \<Rightarrow> coordinator \<Rightarrow> coordinator" where
  "evaluate plan n c =
     (case classification plan of
        NoOp \<Rightarrow> c\<lparr>coordinatorLog := coordinatorLog c @ [Discarded plan]\<rparr>
      | Rejected \<Rightarrow> c\<lparr>coordinatorLog := coordinatorLog c @ [Discarded plan]\<rparr>
      | HotApply \<Rightarrow> c\<lparr>hotApplied := hotApplied c @ [plan]\<rparr>
      | RestartRequired \<Rightarrow>
          if n = 0 then request_restart (reason plan) (c\<lparr>state := Applying\<rparr>)
          else c\<lparr>state := PlanQueued, queuedRestart := Some plan,
                 coordinatorLog := (case queuedRestart c of
                                      None \<Rightarrow> coordinatorLog c
                                    | Some old \<Rightarrow> coordinatorLog c @ [Superseded old])\<rparr>)"

text \<open>Modelled from the spec: the registry completion callback, with \<open>Registry.count()\<close> as \<open>n\<close>.\<close>

definition onRunCompleted :: "nat \<Rightarrow> coordinator \<Rightarrow> coordinator" where
  "onRunCompleted n c =
     (if state c = PlanQueued \<and> n = 0 then
        (case queuedRestart c of
           None \<Rightarrow> c
         | Some plan \<Rightarrow> request_restart (reason plan) (c\<lparr>state := Applying, queuedRestart := None\<rparr>))
      else c)"

text \<open>
  Modelled from the spec: the wiring of the coordinator (also in config-reload.ts) to the
  registry of agent-events.ts. The coordinator is the state outside the module, it
  subscribes \<open>onRunCompleted\<close> with \<open>onAgentRunComplete\<close>, and both of its entry points
  read the count with \<open>getActiveAgentRunCount\<close>. A step of the system is a call of the
  registry, an evaluation of a plan, or the passing of time.
\<close>

definition coordinator_callback :: "coordinator completion_callback" where
  "coordinator_callback view c = Returned (onRunCompleted (length view) c)"

definition system_evaluate :: "ReloadPlan \<Rightarrow> coordinator agent_state \<Rightarrow> coordinator agent_state" where
  "system_evaluate plan s = s\<lparr>world := evaluate plan (getActiveAgentRunCount s) (world s)\<rparr>"

definition initial_system :: "nat \<Rightarrow> nat \<Rightarrow> coordinator agent_state" where
  "initial_system t h = onAgentRunComplete (h, coordinator_callback) (initial_state t initial_coordinator)"

datatype system_action = Call registry_call | Evaluate ReloadPlan | Tick nat

fun system_step :: "system_action \<Rightarrow> coordinator agent_state \<Rightarrow> coordinator agent_state result" where
  "system_step (Call c) s = do_call c s"
| "system_step (Evaluate plan) s = Returned (system_evaluate plan s)"
| "system_step (Tick d) s = advance d s"

fun system_run :: "system_action list \<Rightarrow> coordinator agent_state \<Rightarrow> coordinator agent_state result" where
  "system_run [] s = Returned s"
| "system_run (a # acts) s =
     (case system_step a s of
        Returned s' \<Rightarrow> system_run acts s'
      | Threw e s' \<Rightarrow> Threw e s')"

section \<open>Auxiliary definitions\<close>

text \<open>The counter of a run id as \<open>emitAgentEvent\<close> reads it: \<open>seqByRun.get(runId) ?? 0\<close>.\<close>

definition seq_of :: "'w agent_state \<Rightarrow> string \<Rightarrow> nat" where
  "seq_of s rid = (case seqByRun s rid of None \<Rightarrow> 0 | Some n \<Rightarrow> n)"

text \<open>
  What the ids of the registry are after a history of calls: each id once, and exactly the
  ids currently registered.
\<close>

definition ids_ok :: "registry_call list \<Rightarrow> string list \<Rightarrow> bool" where
  "ids_ok cs ids \<longleftrightarrow> distinct ids \<and> set ids = {r. currently_registered cs r}"

text \<open>The ids of the registry after a sequence of calls, from the ids before it.\<close>

fun ids_after :: "registry_call list \<Rightarrow> string list \<Rightarrow> string list" where
  "ids_after [] ids = ids"
| "ids_after (Register rid c # cs) ids =
     ids_after cs (if rid = [] \<or> rid \<in> set ids then ids else ids @ [rid])"
| "ids_after (Clear rid # cs) ids = ids_after cs (filter (\<lambda>k. k \<noteq> rid) ids)"

text \<open>
  The invariant of the stale-run timers: every registered run has a start time and a
  pending timer due one maximum lifetime after it, and every pending timer is due after
  now, at most one maximum lifetime from now.
\<close>

definition timers_ok :: "'w agent_state \<Rightarrow> bool" where
  "timers_ok s \<longleftrightarrow>
     (\<forall>rid \<in> set (getActiveAgentRunIds s).
        \<exists>t0. runStartTimes s rid = Some t0 \<and> (t0 + MAX_RUN_DURATION_MS, rid) \<in> set (timers s))
     \<and> (\<forall>t \<in> set (timers s). now s < fst t \<and> fst t \<le> now s + MAX_RUN_DURATION_MS)"

text \<open>
  The invariant of the coordinator on the registry: its callback is the one completion
  subscriber, and while a plan is queued the plan is stored and a run is active.
\<close>

definition coordinator_ok :: "nat \<Rightarrow> coordinator agent_state \<Rightarrow> bool" where
  "coordinator_ok h s \<longleftrightarrow>
     runCompletionCallbacks s = [(h, coordinator_callback)]
     \<and> (state (world s) = PlanQueued \<longrightarrow>
          queuedRestart (world s) \<noteq> None \<and> 0 < getActiveAgentRunCount s)"

text \<open>The coordinator after the queued plan has been applied.\<close>

definition applied :: "ReloadPlan \<Rightarrow> coordinator \<Rightarrow> coordinator" where
  "applied plan c = request_restart (reason plan) (c\<lparr>state := Applying, queuedRestart := None\<rparr>)"

text \<open>
  While the timers run with a plan queued: the coordinator is as it was and a run is still
  active, or the queued plan has been applied.
\<close>

definition pending :: "coordinator \<Rightarrow> ReloadPlan \<Rightarrow> coordinator agent_state \<Rightarrow> bool" where
  "pending c0 p s \<longleftrightarrow>
     (world s = c0 \<and> 0 < getActiveAgentRunCount s) \<or> world s = applied p c0"

section \<open>Example values\<close>

definition empty_context :: AgentRunContext where
  "empty_context = \<lparr>sessionKey = None, verboseLevel = None, isHeartbeat = None\<rparr>"

text \<open>
  A subscriber state that is a trace: one completion callback appends the count it reads
  during the notification.
\<close>

definition counting_state :: "nat list agent_state" where
  "counting_state =
     state_of (registerAgentRunContext ''r1'' empty_context
       (onAgentRunComplete (1, \<lambda>view w. Returned (w @ [length view])) (initial_state 0 [])))"

text \<open>Two completion callbacks and two listeners; the first of each throws.\<close>

definition throwing_state :: "nat list agent_state" where
  "throwing_state =
     (initial_state 0 [])\<lparr>
        listeners :=
          [(1, \<lambda>evt w. Threw (Thrown ''boom'') (w @ [seq evt])),
           (2, \<lambda>evt w. Returned (w @ [10 + seq evt]))],
        runContextById := [(''r1'', empty_context)],
        runCompletionCallbacks :=
          [(1, \<lambda>view w. Threw (Thrown ''boom'') (w @ [1])),
           (2, \<lambda>view w. Returned (w @ [2]))] \<rparr>"

definition lifecycle_event :: "string \<Rightarrow> AgentEvent" where
  "lifecycle_event rid =
     \<lparr>ev_runId = rid, ev_stream = ''lifecycle'', ev_data = [], ev_sessionKey = JSUndefined\<rparr>"

definition example_calls :: "registry_call list" where
  "example_calls =
     [Register ''a'' empty_context, Register ''b'' empty_context,
      Register ''a'' empty_context, Clear ''a'', Clear ''zz'',
      Register ''c'' empty_context, Register ''a'' empty_context]"

definition example_actions :: "nat list action list" where
  "example_actions =
     [DoOnAgentRunComplete (1, \<lambda>view w. Returned (w @ [length view])),
      DoRegister ''r1'' empty_context,
      DoAdvance 1000]"

text \<open>
  A run is registered and cleared, and its id is registered again one second later; the
  clock then moves on to ten minutes after the first registration.
\<close>

definition reregister_actions :: "nat \<Rightarrow> unit action list" where
  "reregister_actions d =
     [DoRegister ''r1'' empty_context, DoClear ''r1'', DoAdvance 1000,
      DoRegister ''r1'' empty_context, DoAdvance d]"

definition restart_plan :: ReloadPlan where
  "restart_plan =
     \<lparr>classification = RestartRequired, changedFields = [''gateway.testSetting''],
      reason = ''gateway.testSetting changed''\<rparr>"

definition queue_actions :: "system_action list" where
  "queue_actions = [Call (Register ''r1'' empty_context), Evaluate restart_plan]"

definition one_run_system :: "coordinator agent_state" where
  "one_run_system = state_of (registerAgentRunContext ''r1'' empty_context (initial_system 0 1))"

section \<open>Properties of the registry\<close>

subsection \<open>Auxiliary facts\<close>

lemma notify_callbacks_fold:
  "notify_callbacks cbs view w =
     Returned (foldl (\<lambda>w cb. try_catch_ignore (snd cb view w)) w cbs)"
  by (induction cbs arbitrary: w) simp_all

lemma notify_listeners_fold:
  "notify_listeners ls evt w =
     Returned (foldl (\<lambda>w l. try_catch_ignore (snd l evt w)) w ls)"
  by (induction ls arbitrary: w) simp_all

lemma update_absent:
  "map_of al k = None \<Longrightarrow> AList.update k v al = al @ [(k, v)]"
  by (induction al) (auto split: if_splits)

lemma update_present_keys:
  "map_of al k \<noteq> None \<Longrightarrow> map fst (AList.update k v al) = map fst al"
  by (induction al) (auto split: if_splits)

lemma delete_absent:
  "map_of al k = None \<Longrightarrow> AList.delete k al = al"
  by (induction al) (auto split: if_splits)

lemma register_empty: "registerAgentRunContext [] c s = Returned s"
  by (simp add: registerAgentRunContext_def)

lemma register_new:
  "rid \<noteq> [] \<Longrightarrow> map_of (runContextById s) rid = None \<Longrightarrow>
   registerAgentRunContext rid c s =
     Returned (s\<lparr>runContextById := runContextById s @ [(rid, c)],
                 runStartTimes := (runStartTimes s)(rid \<mapsto> now s),
                 timers := timers s @ [(now s + MAX_RUN_DURATION_MS, rid)],
                 agentLog := agentLog s @
                   [Debug (RunRegistered rid (Suc (length (runContextById s))))]\<rparr>)"
  unfolding registerAgentRunContext_def Let_def
  by (simp add: update_absent)

lemma register_existing:
  "rid \<noteq> [] \<Longrightarrow> map_of (runContextById s) rid = Some e \<Longrightarrow>
   registerAgentRunContext rid c s =
     Returned (s\<lparr>runContextById := AList.update rid (merge_context e c) (runContextById s)\<rparr>)"
  unfolding registerAgentRunContext_def Let_def
  by simp

lemma clear_absent:
  "map_of (runContextById s) rid = None \<Longrightarrow>
   clearAgentRunContext rid s = Returned (s\<lparr>runStartTimes := (runStartTimes s)(rid := None)\<rparr>)"
  unfolding clearAgentRunContext_def Let_def
  by (simp add: delete_absent)

lemma clear_present:
  "map_of (runContextById s) rid \<noteq> None \<Longrightarrow>
   clearAgentRunContext rid s =
     Returned (s\<lparr>runContextById := AList.delete rid (runContextById s),
                 runStartTimes := (runStartTimes s)(rid := None),
                 agentLog := agentLog s @
                   [Debug (RunCleared rid (length (AList.delete rid (runContextById s))))],
                 world := foldl (\<lambda>w cb. try_catch_ignore
                                   (snd cb (AList.delete rid (runContextById s)) w))
                            (world s) (runCompletionCallbacks s)\<rparr>)"
  unfolding clearAgentRunContext_def Let_def
  by (simp add: notify_callbacks_fold)

lemma update_present_length:
  "map_of al k \<noteq> None \<Longrightarrow> length (AList.update k v al) = length al"
  by (induction al) (auto split: if_splits)

lemma merge_context_fields:
  "merge_context existing c =
     \<lparr> sessionKey = (if truthy (sessionKey c) then sessionKey c else sessionKey existing),
       verboseLevel = (if truthy (verboseLevel c) then verboseLevel c else verboseLevel existing),
       isHeartbeat = (if isHeartbeat c \<noteq> None then isHeartbeat c else isHeartbeat existing) \<rparr>"
  by (cases existing; cases c) (auto simp: merge_context_def Let_def)

subsection \<open>Registering with an empty id\<close>

text \<open>
  C2, as the claim states it: \<open>register\<close> with an empty id fails with \<open>InvalidArgument\<close>.
  The code does not: \<open>if (!runId) return;\<close> returns normally. Registering the empty id
  on the initial state returns.
\<close>

theorem register_empty_id_counterexample:
  "registerAgentRunContext ''''
      \<lparr>sessionKey = Some ''main'', verboseLevel = None, isHeartbeat = None\<rparr>
      (initial_state 0 ())
   \<noteq> Threw InvalidArgument (initial_state 0 ())
   \<and> returned (registerAgentRunContext ''''
      \<lparr>sessionKey = Some ''main'', verboseLevel = None, isHeartbeat = None\<rparr>
      (initial_state 0 ()))"
  by (simp add: registerAgentRunContext_def)

text \<open>
  C2, amended: for every metadata value and every state, \<open>registerAgentRunContext\<close> with
  an empty id returns normally and is a no-op: the state is the one before the call, so no
  record is inserted and the count does not change. No error reaches the caller.
\<close>

theorem register_empty_id_noop:
  "registerAgentRunContext [] c s = Returned s
   \<and> runContextById (state_of (registerAgentRunContext [] c s)) = runContextById s
   \<and> getActiveAgentRunCount (state_of (registerAgentRunContext [] c s))
       = getActiveAgentRunCount s"
  by (simp add: registerAgentRunContext_def)

theorem register_empty_id_noop_witness:
  "getActiveAgentRunCount (state_of (registerAgentRunContext ''''
      \<lparr>sessionKey = Some ''main'', verboseLevel = None, isHeartbeat = None\<rparr>
      (initial_state 0 ()))) = 0"
  using register_empty_id_noop
    [of "\<lparr>sessionKey = Some ''main'', verboseLevel = None, isHeartbeat = None\<rparr>"
        "initial_state 0 ()"]
  by (simp add: getActiveAgentRunCount_def initial_state_def)

subsection \<open>Registering an id again\<close>

text \<open>
  C4, as the claim states it: a second \<open>register\<close> updates exactly the fields present in
  the call. The code tests the truthiness of \<open>sessionKey\<close> and \<open>verboseLevel\<close>: a
  field that is present and is the empty string is not stored. After
  \<open>register("x", {sessionKey: "a"})\<close> and \<open>register("x", {sessionKey: ""})\<close> the stored
  session key is still \<open>"a"\<close>.
\<close>

theorem reregister_merge_counterexample:
  "map_option sessionKey
     (getAgentRunContext ''x''
        (state_of (do_calls
           [Register ''x'' \<lparr>sessionKey = Some ''a'', verboseLevel = None, isHeartbeat = None\<rparr>,
            Register ''x'' \<lparr>sessionKey = Some '''', verboseLevel = None, isHeartbeat = None\<rparr>]
           (initial_state 0 ()))))
   = Some (Some ''a'')"
  by (simp add: registerAgentRunContext_def getAgentRunContext_def initial_state_def
        merge_context_def truthy_def Let_def)

text \<open>
  C4, amended: for every registered id and every metadata argument, registering the id
  again stores the call's \<open>sessionKey\<close> and \<open>verboseLevel\<close> when they are defined and
  not empty, and the call's \<open>isHeartbeat\<close> when it is defined; every other field of the
  stored record is left as it was. The records of the other ids, the order of the ids,
  the count, the pending timers and the start times do not change.
\<close>

theorem reregister_merge:
  assumes "rid \<noteq> []" and "getAgentRunContext rid s = Some existing"
  shows "\<exists>s'. registerAgentRunContext rid c s = Returned s'
     \<and> getAgentRunContext rid s' =
         Some \<lparr> sessionKey = (if truthy (sessionKey c) then sessionKey c
                               else sessionKey existing),
                verboseLevel = (if truthy (verboseLevel c) then verboseLevel c
                                else verboseLevel existing),
                isHeartbeat = (if isHeartbeat c \<noteq> None then isHeartbeat c
                               else isHeartbeat existing) \<rparr>
     \<and> (\<forall>other. other \<noteq> rid \<longrightarrow> getAgentRunContext other s' = getAgentRunContext other s)
     \<and> getActiveAgentRunIds s' = getActiveAgentRunIds s
     \<and> getActiveAgentRunCount s' = getActiveAgentRunCount s
     \<and> timers s' = timers s \<and> runStartTimes s' = runStartTimes s"
  using assms
  by (simp add: register_existing getAgentRunContext_def getActiveAgentRunIds_def
        getActiveAgentRunCount_def AList.update_conv' update_present_keys
        merge_context_fields update_present_length)

theorem reregister_merge_witness:
  "''x'' \<noteq> []
   \<and> getAgentRunContext ''x''
        ((initial_state 0 ())\<lparr>runContextById :=
           [(''x'', \<lparr>sessionKey = Some ''original'', verboseLevel = Some ''off'',
                     isHeartbeat = Some False\<rparr>)]\<rparr>)
       = Some \<lparr>sessionKey = Some ''original'', verboseLevel = Some ''off'',
               isHeartbeat = Some False\<rparr>
   \<and> (\<exists>s'. registerAgentRunContext ''x''
              \<lparr>sessionKey = Some ''updated'', verboseLevel = None, isHeartbeat = Some True\<rparr>
              ((initial_state 0 ())\<lparr>runContextById :=
                 [(''x'', \<lparr>sessionKey = Some ''original'', verboseLevel = Some ''off'',
                           isHeartbeat = Some False\<rparr>)]\<rparr>) = Returned s'
        \<and> getAgentRunContext ''x'' s' =
            Some \<lparr>sessionKey = Some ''updated'', verboseLevel = Some ''off'',
                  isHeartbeat = Some True\<rparr>
        \<and> getActiveAgentRunCount s' = 1)"
  using reregister_merge
    [of "''x''"
        "(initial_state 0 ())\<lparr>runContextById :=
           [(''x'', \<lparr>sessionKey = Some ''original'', verboseLevel = Some ''off'',
                     isHeartbeat = Some False\<rparr>)]\<rparr>"
        "\<lparr>sessionKey = Some ''original'', verboseLevel = Some ''off'',
          isHeartbeat = Some False\<rparr>"
        "\<lparr>sessionKey = Some ''updated'', verboseLevel = None, isHeartbeat = Some True\<rparr>"]
  by (auto simp: getAgentRunContext_def getActiveAgentRunCount_def truthy_def)

lemma try_catch_ignore_state_of: "try_catch_ignore r = state_of r"
  by (cases r) simp_all

lemma delete_shorter:
  "map_of al k \<noteq> None \<Longrightarrow> length (AList.delete k al) < length al"
  by (induction al) (auto simp: AList.delete_eq less_Suc_eq_le split: if_splits)

lemma clear_returns: "\<exists>s'. clearAgentRunContext rid s = Returned s'"
  by (cases "map_of (runContextById s) rid = None") (simp_all add: clear_absent clear_present)

lemma emit_returns:
  "emitAgentEvent event s =
     Returned (s\<lparr>seqByRun := (seqByRun s)(ev_runId event \<mapsto> seq (enriched event s)),
                 world := foldl (\<lambda>w l. try_catch_ignore (snd l (enriched event s) w))
                            (world s) (listeners s)\<rparr>)"
  by (simp add: emitAgentEvent_def Let_def notify_listeners_fold)

subsection \<open>Clearing a run\<close>

text \<open>
  C5, as the claim states it: \<open>clear\<close> cancels the pending stale-eviction timer of the
  id. The code keeps no handle of the timer and never calls \<open>clearTimeout\<close>: after
  \<open>register("r1", {})\<close> and \<open>clear("r1")\<close> at time 0, the timer due at 600000 is
  still pending.
\<close>

theorem clear_keeps_timer_counterexample:
  "timers (state_of (do_calls [Register ''r1'' empty_context, Clear ''r1''] (initial_state 0 ())))
   = [(600000, ''r1'')]"
  by (simp add: registerAgentRunContext_def clearAgentRunContext_def initial_state_def Let_def
      MAX_RUN_DURATION_MS_def)

text \<open>
  C5, amended: for every id, if the id is registered, \<open>clearAgentRunContext\<close> returns,
  removes the record and the start time of the id and leaves the other records alone, and
  then calls every completion subscriber, in order, each with the registry as it is after
  the removal (the id is gone and the count is smaller); the pending timers are left as
  they are. If the id is not registered, the call changes nothing but the start-time entry
  it deletes, and no subscriber is called. The timer closure of an id that is not
  registered when it runs does nothing.
\<close>

theorem clear_contract:
  "(getAgentRunContext rid s \<noteq> None \<longrightarrow>
      (\<exists>s'. clearAgentRunContext rid s = Returned s'
         \<and> runContextById s' = AList.delete rid (runContextById s)
         \<and> getAgentRunContext rid s' = None
         \<and> (\<forall>other. other \<noteq> rid \<longrightarrow> getAgentRunContext other s' = getAgentRunContext other s)
         \<and> getActiveAgentRunCount s' < getActiveAgentRunCount s
         \<and> runStartTimes s' = (runStartTimes s)(rid := None)
         \<and> timers s' = timers s
         \<and> world s' = foldl (\<lambda>w cb. state_of (snd cb (runContextById s') w))
                         (world s) (runCompletionCallbacks s)))
   \<and> (getAgentRunContext rid s = None \<longrightarrow>
        clearAgentRunContext rid s
          = Returned (s\<lparr>runStartTimes := (runStartTimes s)(rid := None)\<rparr>)
        \<and> world (state_of (clearAgentRunContext rid s)) = world s
        \<and> stale_run_timeout rid s = Returned s)"
  by (auto simp: clear_present clear_absent getAgentRunContext_def AList.delete_conv'
        getActiveAgentRunCount_def delete_shorter try_catch_ignore_state_of
        stale_run_timeout_def)

theorem clear_contract_witness:
  "getAgentRunContext ''r1'' counting_state \<noteq> None
   \<and> (\<exists>s'. clearAgentRunContext ''r1'' counting_state = Returned s'
         \<and> getAgentRunContext ''r1'' s' = None
         \<and> getActiveAgentRunCount s' = 0
         \<and> timers s' = [(600000, ''r1'')]
         \<and> world s' = [0])
   \<and> getAgentRunContext ''zz'' counting_state = None
   \<and> world (state_of (clearAgentRunContext ''zz'' counting_state)) = []"
  using clear_contract [of "''r1''" counting_state] clear_contract [of "''zz''" counting_state]
  by (auto simp: counting_state_def registerAgentRunContext_def onAgentRunComplete_def
        initial_state_def set_add_def getAgentRunContext_def getActiveAgentRunCount_def
        empty_context_def Let_def MAX_RUN_DURATION_MS_def)

lemma notify_callbacks_append:
  "notify_callbacks (cbs1 @ cb # cbs2) view w =
     notify_callbacks cbs2 view
       (state_of (snd cb view (state_of (notify_callbacks cbs1 view w))))"
  by (induction cbs1 arbitrary: w) (simp_all add: try_catch_ignore_state_of)

lemma notify_listeners_append:
  "notify_listeners (ls1 @ l # ls2) evt w =
     notify_listeners ls2 evt
       (state_of (snd l evt (state_of (notify_listeners ls1 evt w))))"
  by (induction ls1 arbitrary: w) (simp_all add: try_catch_ignore_state_of)

lemma all_dropWhile:
  "(\<forall>x\<in>set (dropWhile P xs). P x) \<longleftrightarrow> (\<forall>x\<in>set xs. P x)"
  by (induction xs) auto

lemma trim_blank: "trim k = [] \<longleftrightarrow> (\<forall>c\<in>set k. is_white_space c)"
  by (simp add: trim_def all_dropWhile)

subsection \<open>Subscribers that throw\<close>

text \<open>
  C9: whatever the completion subscribers and the event listeners do, returning or
  throwing, \<open>clearAgentRunContext\<close> and \<open>emitAgentEvent\<close> return, and so does each
  notification loop. A subscriber anywhere in the list is followed by the rest of the
  list, run on the state it left, whether it returned or threw; the state left by a
  notification is the one obtained by running every subscriber, in the order of the list.
  A new subscriber is put at the end of that list.
\<close>

theorem subscriber_exceptions_swallowed:
  "returned (clearAgentRunContext rid s)
   \<and> returned (emitAgentEvent event s)
   \<and> returned (notify_callbacks cbs view w)
   \<and> returned (notify_listeners ls evt w)
   \<and> notify_callbacks (cbs1 @ cb # cbs2) view w =
       notify_callbacks cbs2 view
         (state_of (snd cb view (state_of (notify_callbacks cbs1 view w))))
   \<and> notify_listeners (ls1 @ l # ls2) evt w =
       notify_listeners ls2 evt
         (state_of (snd l evt (state_of (notify_listeners ls1 evt w))))
   \<and> (getAgentRunContext rid s \<noteq> None \<longrightarrow>
        world (state_of (clearAgentRunContext rid s)) =
          foldl (\<lambda>w cb. state_of (snd cb (AList.delete rid (runContextById s)) w))
            (world s) (runCompletionCallbacks s))
   \<and> world (state_of (emitAgentEvent event s)) =
        foldl (\<lambda>w l. state_of (snd l (enriched event s) w)) (world s) (listeners s)
   \<and> (fst cb \<notin> fst ` set (runCompletionCallbacks s) \<longrightarrow>
        runCompletionCallbacks (onAgentRunComplete cb s) = runCompletionCallbacks s @ [cb])
   \<and> (fst l \<notin> fst ` set (listeners s) \<longrightarrow>
        listeners (onAgentEvent l s) = listeners s @ [l])"
  using clear_returns [of rid s]
  by (auto simp: emit_returns notify_callbacks_fold notify_listeners_fold
        try_catch_ignore_state_of clear_present getAgentRunContext_def
        onAgentRunComplete_def onAgentEvent_def set_add_def)

theorem subscriber_exceptions_swallowed_witness:
  "returned (clearAgentRunContext ''r1'' throwing_state)
   \<and> getAgentRunContext ''r1'' throwing_state \<noteq> None
   \<and> world (state_of (clearAgentRunContext ''r1'' throwing_state)) = [1, 2]
   \<and> returned (emitAgentEvent
        \<lparr>ev_runId = ''r1'', ev_stream = ''tool'', ev_data = [], ev_sessionKey = JSUndefined\<rparr>
        throwing_state)
   \<and> world (state_of (emitAgentEvent
        \<lparr>ev_runId = ''r1'', ev_stream = ''tool'', ev_data = [], ev_sessionKey = JSUndefined\<rparr>
        throwing_state)) = [1, 11]
   \<and> (3::nat) \<notin> fst ` set (runCompletionCallbacks throwing_state)
   \<and> map fst (runCompletionCallbacks
        (onAgentRunComplete (3, \<lambda>view w. Returned w) throwing_state)) = [1, 2, 3]
   \<and> (3::nat) \<notin> fst ` set (listeners throwing_state)
   \<and> map fst (listeners (onAgentEvent (3, \<lambda>evt w. Returned w) throwing_state)) = [1, 2, 3]"
  using subscriber_exceptions_swallowed
    [of "''r1''" throwing_state
        "\<lparr>ev_runId = ''r1'', ev_stream = ''tool'', ev_data = [], ev_sessionKey = JSUndefined\<rparr>"
        "[]" "[]" "[]" "[]" "\<lparr>runId = [], seq = 0, stream = [], ts = 0, data = [],
           payload_sessionKey = None\<rparr>"
        "[]" "(3, \<lambda>view w. Returned w)" "[]" "[]" "(3, \<lambda>evt w. Returned w)" "[]"]
  by (simp add: throwing_state_def getAgentRunContext_def initial_state_def enriched_def
        Let_def empty_context_def)

subsection \<open>The session key of an emitted event\<close>

text \<open>
  C10: the payload \<open>emitAgentEvent\<close> hands to every listener carries the event's own
  session key when that is a string that is not blank after trimming; when it is
  undefined, not a string, or blank (every character is white space), the payload carries
  the session key of the run context registered for the run id, and none when no context
  is registered.
\<close>

theorem session_key_enrichment:
  "payload_sessionKey (enriched event s) =
     (case ev_sessionKey event of
        JSString k \<Rightarrow>
          if trim k = [] then
            (case getAgentRunContext (ev_runId event) s of
               None \<Rightarrow> None | Some c \<Rightarrow> sessionKey c)
          else Some k
      | _ \<Rightarrow> (case getAgentRunContext (ev_runId event) s of
                None \<Rightarrow> None | Some c \<Rightarrow> sessionKey c))
   \<and> (trim k = [] \<longleftrightarrow> (\<forall>c\<in>set k. is_white_space c))
   \<and> world (state_of (emitAgentEvent event s)) =
        foldl (\<lambda>w l. state_of (snd l (enriched event s) w)) (world s) (listeners s)"
  by (auto simp: enriched_def Let_def getAgentRunContext_def emit_returns trim_blank
       try_catch_ignore_state_of split: js_value.splits option.splits)

theorem session_key_enrichment_witness:
  "payload_sessionKey (enriched
      \<lparr>ev_runId = ''r1'', ev_stream = ''tool'', ev_data = [], ev_sessionKey = JSString ''  ''\<rparr>
      ((initial_state 0 ())\<lparr>runContextById :=
          [(''r1'', \<lparr>sessionKey = Some ''main'', verboseLevel = None, isHeartbeat = None\<rparr>)]\<rparr>))
     = Some ''main''
   \<and> trim ''  '' = []"
  using session_key_enrichment
    [of "\<lparr>ev_runId = ''r1'', ev_stream = ''tool'', ev_data = [],
          ev_sessionKey = JSString ''  ''\<rparr>"
        "(initial_state 0 ())\<lparr>runContextById :=
          [(''r1'', \<lparr>sessionKey = Some ''main'', verboseLevel = None, isHeartbeat = None\<rparr>)]\<rparr>"
        "''  ''"]
  by (simp add: getAgentRunContext_def trim_def is_white_space_def)

subsection \<open>Sequence numbers\<close>

lemma register_seqByRun: "seqByRun (state_of (registerAgentRunContext rid c s)) = seqByRun s"
  by (auto simp: registerAgentRunContext_def Let_def split: option.splits)

lemma clear_seqByRun: "seqByRun (state_of (clearAgentRunContext rid s)) = seqByRun s"
  by (cases "map_of (runContextById s) rid = None") (simp_all add: clear_absent clear_present)

lemma stale_seqByRun: "seqByRun (state_of (stale_run_timeout rid s)) = seqByRun s"
  by (simp add: stale_run_timeout_def clear_seqByRun)

lemma stale_returns: "\<exists>s'. stale_run_timeout rid s = Returned s'"
  by (simp add: stale_run_timeout_def clear_returns)

lemma fire_returns: "\<exists>s'. fire_timer t s = Returned s'"
  by (simp add: fire_timer_def stale_returns)

lemma fire_seqByRun: "seqByRun (state_of (fire_timer t s)) = seqByRun s"
  by (simp add: fire_timer_def stale_seqByRun)

lemma run_timers_returns_seq:
  "\<exists>s'. run_timers due s = Returned s' \<and> seqByRun s' = seqByRun s"
proof (induction due arbitrary: s)
  case Nil
  show ?case by simp
next
  case (Cons t rest)
  obtain s1 where f: "fire_timer t s = Returned s1" using fire_returns by blast
  have "seqByRun s1 = seqByRun s" using fire_seqByRun [of t s] f by simp
  with Cons [of s1] f show ?case by simp
qed

lemma advance_returns_seq:
  "\<exists>s'. advance d s = Returned s' \<and> seqByRun s' = seqByRun s"
proof -
  let ?s0 = "s\<lparr>timers := filter (\<lambda>t. now s + d < fst t) (timers s)\<rparr>"
  obtain s1
    where "run_timers (sort_key fst (filter (\<lambda>t. fst t \<le> now s + d) (timers s))) ?s0
        = Returned s1"
      and "seqByRun s1 = seqByRun ?s0"
    using run_timers_returns_seq by blast
  then show ?thesis by (simp add: advance_def Let_def)
qed

lemma perform_returns: "\<exists>s'. perform a s = Returned s'"
proof (cases a)
  case (DoRegister rid c)
  then show ?thesis by (auto simp: registerAgentRunContext_def Let_def split: option.splits)
next
  case (DoClear rid)
  then show ?thesis by (simp add: clear_returns)
next
  case (DoEmit event)
  then show ?thesis by (simp add: emit_returns)
next
  case (DoAdvance d)
  then show ?thesis using advance_returns_seq [of d s] by auto
qed simp_all

lemma perform_seq:
  "seq_of (state_of (perform a s)) rid = (if emits_for rid a then Suc (seq_of s rid) else seq_of s rid)"
proof (cases a)
  case (DoRegister r c)
  then show ?thesis by (simp add: seq_of_def register_seqByRun)
next
  case (DoClear r)
  then show ?thesis by (simp add: seq_of_def clear_seqByRun)
next
  case (DoEmit event)
  then show ?thesis by (simp add: seq_of_def emit_returns enriched_def Let_def)
next
  case (DoAdvance d)
  then show ?thesis using advance_returns_seq [of d s] by (auto simp: seq_of_def)
qed (simp_all add: seq_of_def onAgentEvent_def unsubscribeAgentEvent_def onAgentRunComplete_def unsubscribeRunComplete_def)

lemma upt_step: "[Suc k ..< Suc k + Suc n] = Suc k # [Suc (Suc k) ..< Suc (Suc k) + n]"
  by (simp add: upt_conv_Cons)

lemma emitted_seqs_from:
  "emitted_seqs acts s rid =
     [Suc (seq_of s rid) ..< Suc (seq_of s rid) + length (filter (emits_for rid) acts)]"
proof (induction acts arbitrary: s)
  case Nil
  show ?case by simp
next
  case (Cons a acts)
  let ?s1 = "state_of (perform a s)"
  let ?n = "length (filter (emits_for rid) acts)"
  have ih: "emitted_seqs acts ?s1 rid = [Suc (seq_of ?s1 rid) ..< Suc (seq_of ?s1 rid) + ?n]"
    by (rule Cons)
  show ?case
  proof (cases "emits_for rid a")
    case True
    then obtain event where a: "a = DoEmit event" and r: "ev_runId event = rid"
      by (cases a) auto
    have e: "seq (enriched event s) = Suc (seq_of s rid)"
      using r by (simp add: enriched_def Let_def seq_of_def)
    have k: "seq_of ?s1 rid = Suc (seq_of s rid)"
      using perform_seq [of a s rid] True by simp
    have "emitted_seqs (a # acts) s rid = Suc (seq_of s rid) # emitted_seqs acts ?s1 rid"
      using a r e by simp
    also have "\<dots> = Suc (seq_of s rid) # [Suc (Suc (seq_of s rid)) ..< Suc (Suc (seq_of s rid)) + ?n]"
      using ih k by simp
    also have "\<dots> = [Suc (seq_of s rid) ..< Suc (seq_of s rid) + Suc ?n]"
      by (rule upt_step [symmetric])
    finally show ?thesis using True by simp
  next
    case False
    then have "(case a of DoEmit event \<Rightarrow> (if ev_runId event = rid then [seq (enriched event s)] else []) | _ \<Rightarrow> []) = []"
      by (cases a) auto
    moreover have "seq_of ?s1 rid = seq_of s rid"
      using perform_seq [of a s rid] False by simp
    ultimately show ?thesis
      using ih False by (simp del: perform.simps)
  qed
qed

lemma perform_all_returns: "\<exists>s'. perform_all acts s = Returned s'"
proof (induction acts arbitrary: s)
  case Nil
  show ?case by simp
next
  case (Cons a acts)
  obtain s1 where "perform a s = Returned s1" using perform_returns by blast
  with Cons [of s1] show ?case by simp
qed

lemma perform_all_seq:
  "seq_of (state_of (perform_all acts s)) rid = seq_of s rid + length (filter (emits_for rid) acts)"
proof (induction acts arbitrary: s)
  case Nil
  show ?case by simp
next
  case (Cons a acts)
  obtain s1 where p: "perform a s = Returned s1" using perform_returns by blast
  have "seq_of s1 rid = (if emits_for rid a then Suc (seq_of s rid) else seq_of s rid)"
    using perform_seq [of a s rid] p by simp
  with Cons [of s1] p show ?case by simp
qed


text \<open>
  C8: while any sequence of calls is performed from the initial state (emits for this
  and for other run ids, registers, clears, subscriptions, time passing), the payloads
  emitted for one run id carry the \<open>seq\<close> values 1, 2, 3, ... in the order of the
  calls: each is one more than the one before. From any state the values go on from the
  counter of the run. An emit for another run id leaves the counter as it is, and so does
  clearing the run context: the counter is not reset.
\<close>

theorem seq_monotonic:
  "emitted_seqs acts (initial_state t w) rid
     = [1 ..< Suc (length (filter (emits_for rid) acts))]
   \<and> emitted_seqs acts s rid
     = [Suc (seq_of s rid) ..< Suc (seq_of s rid) + length (filter (emits_for rid) acts)]
   \<and> seq (enriched event s) = Suc (seq_of s (ev_runId event))
   \<and> seq_of (state_of (emitAgentEvent event s)) (ev_runId event) = seq (enriched event s)
   \<and> (ev_runId event \<noteq> rid \<longrightarrow>
        seqByRun (state_of (emitAgentEvent event s)) rid = seqByRun s rid)
   \<and> seqByRun (state_of (clearAgentRunContext rid' s)) = seqByRun s
   \<and> seqByRun (state_of (stale_run_timeout rid' s)) = seqByRun s
   \<and> seq_of (state_of (perform_all acts s)) rid
     = seq_of s rid + length (filter (emits_for rid) acts)"
proof -
  have "seq_of (initial_state t w) rid = 0"
    by (simp add: seq_of_def initial_state_def)
  then have "emitted_seqs acts (initial_state t w) rid
     = [1 ..< Suc (length (filter (emits_for rid) acts))]"
    using emitted_seqs_from [of acts "initial_state t w" rid] by simp
  moreover have "seq (enriched event s) = Suc (seq_of s (ev_runId event))"
    by (simp add: enriched_def Let_def seq_of_def)
  moreover have "seq_of (state_of (emitAgentEvent event s)) (ev_runId event)
      = seq (enriched event s)"
    by (simp add: emit_returns seq_of_def)
  moreover have "ev_runId event \<noteq> rid \<longrightarrow>
        seqByRun (state_of (emitAgentEvent event s)) rid = seqByRun s rid"
    by (simp add: emit_returns)
  ultimately show ?thesis
    by (simp add: emitted_seqs_from clear_seqByRun stale_seqByRun perform_all_seq)
qed

theorem seq_monotonic_witness:
  "emitted_seqs
     [DoEmit (lifecycle_event ''run-1''), DoEmit (lifecycle_event ''run-1''),
      DoEmit (lifecycle_event ''run-2''), DoClear ''run-1'',
      DoEmit (lifecycle_event ''run-1'')]
     (initial_state 0 ()) ''run-1'' = [1, 2, 3]
   \<and> ev_runId (lifecycle_event ''run-2'') \<noteq> ''run-1''
   \<and> seqByRun (state_of (emitAgentEvent (lifecycle_event ''run-2'') (initial_state 0 ())))
        ''run-1'' = None"
  using seq_monotonic
    [of "[DoEmit (lifecycle_event ''run-1''), DoEmit (lifecycle_event ''run-1''),
          DoEmit (lifecycle_event ''run-2''), DoClear ''run-1'',
          DoEmit (lifecycle_event ''run-1'')]"
        0 "()" "''run-1''" "initial_state 0 ()" "lifecycle_event ''run-2''" "''run-1''"]
  by (simp add: lifecycle_event_def initial_state_def upt_rec)

subsection \<open>The count of the registry\<close>

lemma register_returns: "\<exists>s'. registerAgentRunContext rid c s = Returned s'"
  by (auto simp: registerAgentRunContext_def Let_def split: option.splits)

lemma do_call_returns: "\<exists>s'. do_call c s = Returned s'"
  by (cases c) (simp_all add: register_returns clear_returns)

lemma do_calls_returns: "\<exists>s'. do_calls cs s = Returned s'"
proof (induction cs arbitrary: s)
  case Nil
  show ?case by simp
next
  case (Cons c cs)
  obtain s1 where "do_call c s = Returned s1" using do_call_returns by blast
  with Cons [of s1] show ?case by simp
qed

lemma do_calls_snoc:
  "state_of (do_calls (cs @ [c]) s) = state_of (do_call c (state_of (do_calls cs s)))"
proof (induction cs arbitrary: s)
  case Nil
  obtain s1 where "do_call c s = Returned s1" using do_call_returns by blast
  then show ?case by simp
next
  case (Cons a cs)
  obtain s1 where "do_call a s = Returned s1" using do_call_returns by blast
  with Cons [of s1] show ?case by simp
qed

lemma map_of_None_ids: "map_of (runContextById s) rid = None \<longleftrightarrow> rid \<notin> set (getActiveAgentRunIds s)"
  by (simp add: getActiveAgentRunIds_def map_of_eq_None_iff)

lemma register_ids:
  "getActiveAgentRunIds (state_of (registerAgentRunContext rid c s)) =
     (if rid = [] \<or> rid \<in> set (getActiveAgentRunIds s) then getActiveAgentRunIds s
      else getActiveAgentRunIds s @ [rid])"
proof (cases "rid = []")
  case True
  then show ?thesis by (simp add: register_empty)
next
  case False
  show ?thesis
  proof (cases "map_of (runContextById s) rid")
    case None
    then show ?thesis
      using False map_of_None_ids [of s rid]
      by (simp add: register_new getActiveAgentRunIds_def)
  next
    case (Some e)
    then have "rid \<in> set (getActiveAgentRunIds s)"
      using map_of_None_ids [of s rid] by simp
    then show ?thesis
      using False Some
      by (simp add: register_existing getActiveAgentRunIds_def update_present_keys)
  qed
qed

lemma delete_keys: "map fst (AList.delete k al) = filter (\<lambda>x. x \<noteq> k) (map fst al)"
  by (induction al) auto

lemma clear_ids:
  "getActiveAgentRunIds (state_of (clearAgentRunContext rid s)) =
     filter (\<lambda>k. k \<noteq> rid) (getActiveAgentRunIds s)"
proof (cases "map_of (runContextById s) rid = None")
  case True
  then have "rid \<notin> set (getActiveAgentRunIds s)" using map_of_None_ids by blast
  then have "filter (\<lambda>k. k \<noteq> rid) (getActiveAgentRunIds s) = getActiveAgentRunIds s"
    by (simp add: filter_id_conv) blast
  then show ?thesis using True by (simp add: clear_absent getActiveAgentRunIds_def)
next
  case False
  then show ?thesis by (simp add: clear_present getActiveAgentRunIds_def delete_keys)
qed

lemma currently_registered_alt:
  "currently_registered cs r \<longleftrightarrow>
     r \<noteq> [] \<and> filter (\<lambda>c. call_id c = r) cs \<noteq> []
     \<and> is_register (last (filter (\<lambda>c. call_id c = r) cs))"
  by (cases "filter (\<lambda>c. call_id c = r) cs") (simp_all add: currently_registered_def)

lemma currently_registered_snoc:
  "currently_registered (cs @ [c]) r =
     (if call_id c = r then r \<noteq> [] \<and> is_register c else currently_registered cs r)"
  by (simp add: currently_registered_alt)

lemma currently_registered_empty_id: "\<not> currently_registered cs []"
  by (simp add: currently_registered_alt)

lemma currently_registered_Nil: "\<not> currently_registered [] r"
  by (simp add: currently_registered_def)

lemma ids_after_calls:
  assumes "runContextById s = []"
  shows "ids_ok cs (getActiveAgentRunIds (state_of (do_calls cs s)))"
proof (induction cs rule: rev_induct)
  case Nil
  show ?case using assms by (simp add: ids_ok_def getActiveAgentRunIds_def currently_registered_Nil)
next
  case (snoc c cs)
  let ?s' = "state_of (do_calls cs s)"
  have ih: "distinct (getActiveAgentRunIds ?s')"
    "set (getActiveAgentRunIds ?s') = {r. currently_registered cs r}"
    using snoc by (simp_all add: ids_ok_def)
  show ?case
  proof (cases c)
    case (Register rid x)
    then show ?thesis
      using ih by (auto simp: ids_ok_def do_calls_snoc register_ids currently_registered_snoc
          currently_registered_empty_id)
  next
    case (Clear rid)
    then show ?thesis
      using ih by (auto simp: ids_ok_def do_calls_snoc clear_ids currently_registered_snoc)
  qed
qed

lemma registered_ids_Collect: "registered_ids cs = {r. currently_registered cs r}"
proof -
  have "currently_registered cs r \<Longrightarrow> r \<in> set (map call_id cs)" for r
  proof -
    assume "currently_registered cs r"
    then have "filter (\<lambda>c. call_id c = r) cs \<noteq> []"
      by (auto simp: currently_registered_def)
    then obtain c where "c \<in> set cs" "call_id c = r"
      by (auto simp: filter_empty_conv)
    then show ?thesis by auto
  qed
  then show ?thesis by (auto simp: registered_ids_def)
qed

lemma count_after_calls:
  assumes "runContextById s = []"
  shows "getActiveAgentRunCount (state_of (do_calls cs s)) = card (registered_ids cs)"
proof -
  have "ids_ok cs (getActiveAgentRunIds (state_of (do_calls cs s)))"
    using assms by (rule ids_after_calls)
  then have "card (registered_ids cs) = length (getActiveAgentRunIds (state_of (do_calls cs s)))"
    by (simp add: ids_ok_def registered_ids_Collect [symmetric] distinct_card [symmetric])
  then show ?thesis by (simp add: getActiveAgentRunCount_def getActiveAgentRunIds_def)
qed


lemma register_count_registered:
  "rid \<in> set (getActiveAgentRunIds s) \<Longrightarrow>
   getActiveAgentRunCount (state_of (registerAgentRunContext rid c s)) = getActiveAgentRunCount s"
  using register_ids [of rid c s]
  by (simp add: getActiveAgentRunCount_def getActiveAgentRunIds_def)
     (metis length_map)

lemma clear_count_absent:
  "rid \<notin> set (getActiveAgentRunIds s) \<Longrightarrow>
   getActiveAgentRunCount (state_of (clearAgentRunContext rid s)) = getActiveAgentRunCount s"
  using map_of_None_ids [of s rid]
  by (simp add: clear_absent getActiveAgentRunCount_def)

lemma ids_after_do_calls:
  "getActiveAgentRunIds (state_of (do_calls cs s)) = ids_after cs (getActiveAgentRunIds s)"
proof (induction cs arbitrary: s)
  case Nil
  show ?case by simp
next
  case (Cons c cs)
  obtain s1 where s1: "do_call c s = Returned s1" using do_call_returns by blast
  show ?case
  proof (cases c)
    case (Register rid x)
    then show ?thesis
      using Cons [of s1] s1 register_ids [of rid x s] by simp
  next
    case (Clear rid)
    then show ?thesis
      using Cons [of s1] s1 clear_ids [of rid s] by simp
  qed
qed

lemma example_calls_ids:
  "getActiveAgentRunIds (state_of (do_calls example_calls (initial_state 0 ())))
     = [''b'', ''c'', ''a'']"
  by (subst ids_after_do_calls)
     (simp add: example_calls_def getActiveAgentRunIds_def initial_state_def)

text \<open>
  C3: from any state with an empty registry, every finite sequence of \<open>register\<close> and
  \<open>clear\<close> calls returns, and afterwards the count is the number of ids currently
  registered according to the history of calls (the ids, not empty, whose last call is a
  \<open>register\<close>); the registry holds each of these ids once. Registering an id that
  is registered does not change the count, and neither does clearing an id that is not.
  The count is a length, a natural number.
\<close>

theorem registry_count_invariant:
  assumes "runContextById s = []"
  shows "returned (do_calls calls s)
     \<and> getActiveAgentRunCount (state_of (do_calls calls s)) = card (registered_ids calls)
     \<and> set (getActiveAgentRunIds (state_of (do_calls calls s))) = registered_ids calls
     \<and> distinct (getActiveAgentRunIds (state_of (do_calls calls s)))
     \<and> (rid \<in> registered_ids calls \<longrightarrow>
          getActiveAgentRunCount
            (state_of (registerAgentRunContext rid c (state_of (do_calls calls s))))
          = getActiveAgentRunCount (state_of (do_calls calls s)))
     \<and> (rid' \<notin> registered_ids calls \<longrightarrow>
          getActiveAgentRunCount
            (state_of (clearAgentRunContext rid' (state_of (do_calls calls s))))
          = getActiveAgentRunCount (state_of (do_calls calls s)))"
proof -
  have ok: "ids_ok calls (getActiveAgentRunIds (state_of (do_calls calls s)))"
    using assms by (rule ids_after_calls)
  then have ids: "set (getActiveAgentRunIds (state_of (do_calls calls s))) = registered_ids calls"
    by (simp add: ids_ok_def registered_ids_Collect)
  obtain s' where "do_calls calls s = Returned s'"
    using do_calls_returns by blast
  then have "returned (do_calls calls s)" by simp
  then show ?thesis
    using ok ids count_after_calls [OF assms, of calls]
      register_count_registered [of rid "state_of (do_calls calls s)" c]
      clear_count_absent [of rid' "state_of (do_calls calls s)"]
    by (simp add: ids_ok_def)
qed

theorem registry_count_invariant_witness:
  "runContextById (initial_state 0 ()) = []
   \<and> returned (do_calls example_calls (initial_state 0 ()))
   \<and> getActiveAgentRunCount (state_of (do_calls example_calls (initial_state 0 ()))) = 3
   \<and> card (registered_ids example_calls) = 3
   \<and> ''b'' \<in> registered_ids example_calls
   \<and> ''zz'' \<notin> registered_ids example_calls"
proof -
  have e: "runContextById (initial_state 0 ()) = []"
    by (simp add: initial_state_def)
  have ids: "getActiveAgentRunIds (state_of (do_calls example_calls (initial_state 0 ())))
      = [''b'', ''c'', ''a'']"
    by (rule example_calls_ids)
  have "length (getActiveAgentRunIds (state_of (do_calls example_calls (initial_state 0 ()))))
      = 3"
    by (simp add: ids)
  then have n: "getActiveAgentRunCount (state_of (do_calls example_calls (initial_state 0 ())))
      = 3"
    by (simp add: getActiveAgentRunCount_def getActiveAgentRunIds_def)
  note inv = registry_count_invariant [OF e, of example_calls "''b''" empty_context "''zz''"]
  have r: "returned (do_calls example_calls (initial_state 0 ()))"
    using inv by simp
  have c: "card (registered_ids example_calls) = 3"
    using inv n by simp
  have "registered_ids example_calls = set [''b'', ''c'', ''a'']"
    using inv ids by simp
  then have m: "''b'' \<in> registered_ids example_calls" "''zz'' \<notin> registered_ids example_calls"
    by simp_all
  show ?thesis
    using e r n c m by simp
qed

lemma after_last_clear_snoc:
  "after_last_clear (cs @ [c]) r = (if c = Clear r then Suc (length cs) else after_last_clear cs r)"
  by (simp add: after_last_clear_def)

lemma after_last_clear_le: "after_last_clear cs r \<le> length cs"
  by (simp add: after_last_clear_def)

lemma creation_index_le: "creation_index cs r \<le> length cs"
proof -
  have "length (takeWhile (\<lambda>c. \<not> (is_register c \<and> call_id c = r)) (drop (after_last_clear cs r) cs))
      \<le> length (drop (after_last_clear cs r) cs)"
    by (rule length_takeWhile_le)
  then show ?thesis
    using after_last_clear_le [of cs r] by (simp add: creation_index_def Let_def)
qed

lemma takeWhile_snoc:
  "takeWhile P (xs @ [c]) =
     (if length (takeWhile P xs) < length xs then takeWhile P xs
      else if P c then xs @ [c] else xs)"
proof (induction xs)
  case Nil
  show ?case by simp
next
  case (Cons x xs)
  then show ?case by auto
qed

lemma creation_index_snoc:
  "creation_index (cs @ [c]) r =
     (if c = Clear r then Suc (length cs)
      else if creation_index cs r < length cs then creation_index cs r
      else if is_register c \<and> call_id c = r then length cs
      else Suc (length cs))"
proof (cases "c = Clear r")
  case True
  then show ?thesis by (simp add: creation_index_def after_last_clear_snoc Let_def)
next
  case False
  let ?k = "after_last_clear cs r"
  let ?P = "\<lambda>c. \<not> (is_register c \<and> call_id c = r)"
  have k: "?k \<le> length cs" by (rule after_last_clear_le)
  have ci: "creation_index cs r = ?k + length (takeWhile ?P (drop ?k cs))"
    by (simp add: creation_index_def Let_def)
  have "creation_index (cs @ [c]) r = ?k + length (takeWhile ?P (drop ?k cs @ [c]))"
    using False k by (simp add: creation_index_def after_last_clear_snoc Let_def)
  also have "\<dots> =
     (if creation_index cs r < length cs then creation_index cs r
      else if is_register c \<and> call_id c = r then length cs
      else Suc (length cs))"
    using k ci by (auto simp: takeWhile_snoc)
  finally show ?thesis using False by simp
qed

lemma registered_iff_created:
  "r \<noteq> [] \<Longrightarrow> currently_registered cs r \<longleftrightarrow> creation_index cs r < length cs"
proof (induction cs rule: rev_induct)
  case Nil
  then show ?case by (simp add: currently_registered_Nil creation_index_def Let_def)
next
  case (snoc c cs)
  have le: "creation_index cs r \<le> length cs" by (rule creation_index_le)
  show ?case
  proof (cases c)
    case (Register rid x)
    then show ?thesis
      using snoc le by (auto simp: currently_registered_snoc creation_index_snoc)
  next
    case (Clear rid)
    then show ?thesis
      using snoc le by (auto simp: currently_registered_snoc creation_index_snoc)
  qed
qed

lemma creation_index_kept:
  "currently_registered cs r \<Longrightarrow> c \<noteq> Clear r \<Longrightarrow> creation_index (cs @ [c]) r = creation_index cs r"
  using registered_iff_created [of r cs] currently_registered_empty_id [of cs]
  by (cases "r = []") (auto simp: creation_index_snoc)

lemma creation_index_new:
  "r \<noteq> [] \<Longrightarrow> \<not> currently_registered cs r \<Longrightarrow> creation_index (cs @ [Register r x]) r = length cs"
  using registered_iff_created [of r cs]
  by (simp add: creation_index_snoc)

lemma ids_sorted_after_calls:
  assumes "runContextById s = []"
  shows "sorted_wrt (\<lambda>a b. creation_index cs a < creation_index cs b)
           (getActiveAgentRunIds (state_of (do_calls cs s)))"
proof (induction cs rule: rev_induct)
  case Nil
  show ?case using assms by (simp add: getActiveAgentRunIds_def)
next
  case (snoc c cs)
  let ?ids = "getActiveAgentRunIds (state_of (do_calls cs s))"
  have ok: "set ?ids = {r. currently_registered cs r}"
    using ids_after_calls [OF assms, of cs] by (simp add: ids_ok_def)
  have lt: "creation_index cs r < length cs" if "r \<in> set ?ids" for r
    using that ok registered_iff_created [of r cs] currently_registered_empty_id [of cs]
    by (cases "r = []") auto
  show ?case
  proof (cases c)
    case (Register rid x)
    have same: "creation_index (cs @ [c]) r = creation_index cs r" if "r \<in> set ?ids" for r
      using that ok Register by (simp add: creation_index_kept)
    have s1: "sorted_wrt (\<lambda>a b. creation_index (cs @ [c]) a < creation_index (cs @ [c]) b) ?ids"
      using snoc by (rule sorted_wrt_mono_rel [rotated]) (simp add: same)
    show ?thesis
    proof (cases "rid = [] \<or> rid \<in> set ?ids")
      case True
      then show ?thesis using s1 Register by (simp add: do_calls_snoc register_ids)
    next
      case False
      then have "creation_index (cs @ [c]) rid = length cs"
        using ok Register by (simp add: creation_index_new)
      then show ?thesis
        using s1 False Register same lt
        by (simp add: do_calls_snoc register_ids sorted_wrt_append)
    qed
  next
    case (Clear rid)
    have same: "creation_index (cs @ [c]) r = creation_index cs r" if "r \<in> set ?ids" "r \<noteq> rid" for r
      using that ok Clear by (simp add: creation_index_kept)
    have "sorted_wrt (\<lambda>a b. creation_index cs a < creation_index cs b) (filter (\<lambda>k. k \<noteq> rid) ?ids)"
      using snoc by (rule sorted_wrt_filter)
    then have "sorted_wrt (\<lambda>a b. creation_index (cs @ [c]) a < creation_index (cs @ [c]) b)
        (filter (\<lambda>k. k \<noteq> rid) ?ids)"
      by (rule sorted_wrt_mono_rel [rotated]) (simp add: same)
    then show ?thesis using Clear by (simp add: do_calls_snoc clear_ids)
  qed
qed


lemma creation_index_is_register:
  assumes "creation_index cs r < length cs"
  shows "\<exists>x. cs ! creation_index cs r = Register r x"
proof -
  let ?k = "after_last_clear cs r"
  let ?P = "\<lambda>c. \<not> (is_register c \<and> call_id c = r)"
  let ?n = "length (takeWhile ?P (drop ?k cs))"
  have ci: "creation_index cs r = ?k + ?n"
    by (simp add: creation_index_def Let_def)
  have k: "?k \<le> length cs" by (rule after_last_clear_le)
  have n: "?n < length (drop ?k cs)"
    using assms ci k by simp
  then have "\<not> ?P (drop ?k cs ! ?n)"
    by (rule nth_length_takeWhile)
  moreover have "drop ?k cs ! ?n = cs ! creation_index cs r"
    using ci k by simp
  ultimately have "is_register (cs ! creation_index cs r)"
    and "call_id (cs ! creation_index cs r) = r"
    by simp_all
  then show ?thesis by (cases "cs ! creation_index cs r") auto
qed

subsection \<open>The order of the ids\<close>

text \<open>
  C7: from any state with an empty registry, after every sequence of \<open>register\<close> and
  \<open>clear\<close> calls \<open>getActiveAgentRunIds\<close> returns exactly the ids currently registered
  according to the history, each once, in the order of the calls that created their
  records: the position of the first \<open>register\<close> of the id after its last \<open>clear\<close>
  increases along the list, and the call at that position is a \<open>register\<close> of the id.
  Registering an id that is registered leaves the list as it is.
\<close>

theorem list_ids_insertion_order:
  assumes "runContextById s = []"
  shows "set (getActiveAgentRunIds (state_of (do_calls calls s))) = registered_ids calls
     \<and> distinct (getActiveAgentRunIds (state_of (do_calls calls s)))
     \<and> sorted_wrt (\<lambda>a b. creation_index calls a < creation_index calls b)
          (getActiveAgentRunIds (state_of (do_calls calls s)))
     \<and> (\<forall>r \<in> set (getActiveAgentRunIds (state_of (do_calls calls s))).
          creation_index calls r < length calls
          \<and> (\<exists>x. calls ! creation_index calls r = Register r x))
     \<and> (rid \<in> set (getActiveAgentRunIds (state_of (do_calls calls s))) \<longrightarrow>
          getActiveAgentRunIds
            (state_of (registerAgentRunContext rid c (state_of (do_calls calls s))))
          = getActiveAgentRunIds (state_of (do_calls calls s)))"
proof -
  have ok: "ids_ok calls (getActiveAgentRunIds (state_of (do_calls calls s)))"
    using assms by (rule ids_after_calls)
  have lt: "creation_index calls r < length calls"
    if "r \<in> set (getActiveAgentRunIds (state_of (do_calls calls s)))" for r
    using that ok registered_iff_created [of r calls] currently_registered_empty_id [of calls]
    by (cases "r = []") (auto simp: ids_ok_def)
  show ?thesis
    using ok ids_sorted_after_calls [OF assms, of calls] lt creation_index_is_register
    by (simp add: ids_ok_def registered_ids_Collect register_ids)
qed

theorem list_ids_insertion_order_witness:
  "runContextById (initial_state 0 ()) = []
   \<and> getActiveAgentRunIds (state_of (do_calls example_calls (initial_state 0 ())))
       = [''b'', ''c'', ''a'']
   \<and> map (creation_index example_calls) [''b'', ''c'', ''a''] = [1, 5, 6]
   \<and> ''a'' \<in> set (getActiveAgentRunIds (state_of (do_calls example_calls (initial_state 0 ()))))
   \<and> getActiveAgentRunIds (state_of (registerAgentRunContext ''a'' empty_context
         (state_of (do_calls example_calls (initial_state 0 ())))))
       = [''b'', ''c'', ''a'']"
proof -
  have e: "runContextById (initial_state 0 ()) = []"
    by (simp add: initial_state_def)
  have ids: "getActiveAgentRunIds (state_of (do_calls example_calls (initial_state 0 ())))
      = [''b'', ''c'', ''a'']"
    by (rule example_calls_ids)
  have ci: "map (creation_index example_calls) [''b'', ''c'', ''a''] = [1, 5, 6]"
    by (simp add: example_calls_def creation_index_def after_last_clear_def Let_def)
  note ord = list_ids_insertion_order [OF e, of example_calls "''a''" empty_context]
  have m: "''a'' \<in> set (getActiveAgentRunIds
      (state_of (do_calls example_calls (initial_state 0 ()))))"
    by (simp add: ids)
  then have "getActiveAgentRunIds (state_of (registerAgentRunContext ''a'' empty_context
         (state_of (do_calls example_calls (initial_state 0 ())))))
       = getActiveAgentRunIds (state_of (do_calls example_calls (initial_state 0 ())))"
    using ord by blast
  then show ?thesis
    using e ids ci m by simp
qed

subsection \<open>Stale runs\<close>

lemma register_cases:
  "registerAgentRunContext rid c s = Returned s
   \<or> (rid \<noteq> [] \<and> rid \<notin> set (getActiveAgentRunIds s)
       \<and> registerAgentRunContext rid c s =
          Returned (s\<lparr>runContextById := runContextById s @ [(rid, c)],
                 runStartTimes := (runStartTimes s)(rid \<mapsto> now s),
                 timers := timers s @ [(now s + MAX_RUN_DURATION_MS, rid)],
                 agentLog := agentLog s @
                   [Debug (RunRegistered rid (Suc (length (runContextById s))))]\<rparr>))
   \<or> (\<exists>e. rid \<in> set (getActiveAgentRunIds s)
       \<and> registerAgentRunContext rid c s =
          Returned (s\<lparr>runContextById := AList.update rid e (runContextById s)\<rparr>))"
proof (cases "rid = []")
  case True
  then show ?thesis by (simp add: register_empty)
next
  case False
  show ?thesis
  proof (cases "map_of (runContextById s) rid")
    case None
    then show ?thesis using False map_of_None_ids [of s rid] by (simp add: register_new)
  next
    case (Some e)
    then have "rid \<in> set (getActiveAgentRunIds s)" using map_of_None_ids [of s rid] by simp
    then show ?thesis using False Some by (auto simp: register_existing)
  qed
qed

lemma MAX_pos: "0 < MAX_RUN_DURATION_MS"
  by (simp add: MAX_RUN_DURATION_MS_def)

lemma timers_ok_register:
  assumes "timers_ok s"
  shows "timers_ok (state_of (registerAgentRunContext rid c s))"
  using register_cases [of rid c s]
proof (elim disjE conjE exE)
  assume "registerAgentRunContext rid c s = Returned s"
  then show ?thesis using assms by simp
next
  assume "rid \<noteq> []" "rid \<notin> set (getActiveAgentRunIds s)"
    and r: "registerAgentRunContext rid c s =
          Returned (s\<lparr>runContextById := runContextById s @ [(rid, c)],
                 runStartTimes := (runStartTimes s)(rid \<mapsto> now s),
                 timers := timers s @ [(now s + MAX_RUN_DURATION_MS, rid)],
                 agentLog := agentLog s @
                   [Debug (RunRegistered rid (Suc (length (runContextById s))))]\<rparr>)"
  show ?thesis
    using assms MAX_pos unfolding r timers_ok_def getActiveAgentRunIds_def
    by (auto simp: image_iff) 
next
  fix e
  assume "rid \<in> set (getActiveAgentRunIds s)"
    and r: "registerAgentRunContext rid c s =
          Returned (s\<lparr>runContextById := AList.update rid e (runContextById s)\<rparr>)"
  then have "map_of (runContextById s) rid \<noteq> None"
    using map_of_None_ids [of s rid] by simp
  then have "map fst (AList.update rid e (runContextById s)) = map fst (runContextById s)"
    by (rule update_present_keys)
  then show ?thesis
    using assms unfolding r timers_ok_def getActiveAgentRunIds_def by simp
qed

lemma clear_timers: "timers (state_of (clearAgentRunContext rid s)) = timers s"
  by (cases "map_of (runContextById s) rid = None") (simp_all add: clear_absent clear_present)

lemma clear_now: "now (state_of (clearAgentRunContext rid s)) = now s"
  by (cases "map_of (runContextById s) rid = None") (simp_all add: clear_absent clear_present)

lemma clear_callbacks:
  "runCompletionCallbacks (state_of (clearAgentRunContext rid s)) = runCompletionCallbacks s"
  by (cases "map_of (runContextById s) rid = None") (simp_all add: clear_absent clear_present)

lemma clear_start:
  "runStartTimes (state_of (clearAgentRunContext rid s)) = (runStartTimes s)(rid := None)"
  by (cases "map_of (runContextById s) rid = None") (simp_all add: clear_absent clear_present)

lemma timers_ok_clear:
  assumes "timers_ok s"
  shows "timers_ok (state_of (clearAgentRunContext rid s))"
  using assms
  by (simp add: timers_ok_def clear_ids clear_timers clear_now clear_start)

lemma stale_ids:
  "getActiveAgentRunIds (state_of (stale_run_timeout rid s)) =
     filter (\<lambda>k. k \<noteq> rid) (getActiveAgentRunIds s)"
proof (cases "map_of (runContextById s) rid = None")
  case True
  then have "rid \<notin> set (getActiveAgentRunIds s)" using map_of_None_ids by blast
  then have "filter (\<lambda>k. k \<noteq> rid) (getActiveAgentRunIds s) = getActiveAgentRunIds s"
    by (simp add: filter_id_conv) blast
  then show ?thesis using True by (simp add: stale_run_timeout_def)
next
  case False
  then show ?thesis
    using clear_ids [of rid "s\<lparr>agentLog := agentLog s @ [Warn (ForceClearingStale rid MAX_RUN_DURATION_MS)]\<rparr>"]
    by (simp add: stale_run_timeout_def getActiveAgentRunIds_def)
qed

lemma stale_timers: "timers (state_of (stale_run_timeout rid s)) = timers s"
  by (simp add: stale_run_timeout_def clear_timers)

lemma stale_now: "now (state_of (stale_run_timeout rid s)) = now s"
  by (simp add: stale_run_timeout_def clear_now)

lemma stale_callbacks:
  "runCompletionCallbacks (state_of (stale_run_timeout rid s)) = runCompletionCallbacks s"
  by (simp add: stale_run_timeout_def clear_callbacks)

lemma stale_start:
  "k \<noteq> rid \<Longrightarrow> runStartTimes (state_of (stale_run_timeout rid s)) k = runStartTimes s k"
  by (simp add: stale_run_timeout_def clear_start)

lemma run_timers_effect:
  "\<exists>s'. run_timers due s = Returned s'
     \<and> getActiveAgentRunIds s' = filter (\<lambda>k. k \<notin> snd ` set due) (getActiveAgentRunIds s)
     \<and> timers s' = timers s
     \<and> runCompletionCallbacks s' = runCompletionCallbacks s
     \<and> (\<forall>k. k \<notin> snd ` set due \<longrightarrow> runStartTimes s' k = runStartTimes s k)"
proof (induction due arbitrary: s)
  case Nil
  show ?case by simp
next
  case (Cons t rest)
  obtain s1 where f: "fire_timer t s = Returned s1" using fire_returns by blast
  then have s1: "s1 = state_of (stale_run_timeout (snd t) (s\<lparr>now := max (now s) (fst t)\<rparr>))"
    by (simp add: fire_timer_def)
  have i: "getActiveAgentRunIds s1 = filter (\<lambda>k. k \<noteq> snd t) (getActiveAgentRunIds s)"
    unfolding s1 stale_ids by (simp add: getActiveAgentRunIds_def)
  have t: "timers s1 = timers s" unfolding s1 stale_timers by simp
  have c: "runCompletionCallbacks s1 = runCompletionCallbacks s"
    unfolding s1 stale_callbacks by simp
  have st: "runStartTimes s1 k = runStartTimes s k" if "k \<noteq> snd t" for k
    unfolding s1 using that by (simp add: stale_start)
  obtain s' where r: "run_timers rest s1 = Returned s'"
    and i': "getActiveAgentRunIds s' = filter (\<lambda>k. k \<notin> snd ` set rest) (getActiveAgentRunIds s1)"
    and t': "timers s' = timers s1"
    and c': "runCompletionCallbacks s' = runCompletionCallbacks s1"
    and st': "\<forall>k. k \<notin> snd ` set rest \<longrightarrow> runStartTimes s' k = runStartTimes s1 k"
    using Cons [of s1] by blast
  have "getActiveAgentRunIds s' = filter (\<lambda>k. k \<notin> snd ` set (t # rest)) (getActiveAgentRunIds s)"
    unfolding i' i by (auto intro: filter_cong)
  moreover have "\<forall>k. k \<notin> snd ` set (t # rest) \<longrightarrow> runStartTimes s' k = runStartTimes s k"
    using st st' by simp
  ultimately show ?case
    using f r t t' c c' by simp
qed

lemma advance_effect:
  "\<exists>s'. advance d s = Returned s'
     \<and> getActiveAgentRunIds s' =
         filter (\<lambda>k. k \<notin> snd ` {t \<in> set (timers s). fst t \<le> now s + d}) (getActiveAgentRunIds s)
     \<and> timers s' = filter (\<lambda>t. now s + d < fst t) (timers s)
     \<and> now s' = now s + d
     \<and> runCompletionCallbacks s' = runCompletionCallbacks s
     \<and> (\<forall>k. k \<notin> snd ` {t \<in> set (timers s). fst t \<le> now s + d} \<longrightarrow>
           runStartTimes s' k = runStartTimes s k)"
proof -
  let ?due = "sort_key fst (filter (\<lambda>t. fst t \<le> now s + d) (timers s))"
  let ?s0 = "s\<lparr>timers := filter (\<lambda>t. now s + d < fst t) (timers s)\<rparr>"
  have d: "set ?due = {t \<in> set (timers s). fst t \<le> now s + d}" by auto
  obtain s' where "run_timers ?due ?s0 = Returned s'"
     and "getActiveAgentRunIds s' = filter (\<lambda>k. k \<notin> snd ` set ?due) (getActiveAgentRunIds ?s0)"
     and "timers s' = timers ?s0"
     and "runCompletionCallbacks s' = runCompletionCallbacks ?s0"
     and "\<forall>k. k \<notin> snd ` set ?due \<longrightarrow> runStartTimes s' k = runStartTimes ?s0 k"
    using run_timers_effect [of ?due ?s0] by blast
  then show ?thesis
    unfolding d by (simp add: advance_def Let_def getActiveAgentRunIds_def)
qed

lemma timers_ok_advance:
  assumes "timers_ok s"
  shows "timers_ok (state_of (advance d s))"
proof -
  obtain s' where a: "advance d s = Returned s'"
     and i: "getActiveAgentRunIds s' =
         filter (\<lambda>k. k \<notin> snd ` {t \<in> set (timers s). fst t \<le> now s + d}) (getActiveAgentRunIds s)"
     and t: "timers s' = filter (\<lambda>t. now s + d < fst t) (timers s)"
     and n: "now s' = now s + d"
     and st: "\<forall>k. k \<notin> snd ` {t \<in> set (timers s). fst t \<le> now s + d} \<longrightarrow>
           runStartTimes s' k = runStartTimes s k"
    using advance_effect [of d s] by blast
  have "\<exists>t0. runStartTimes s' rid = Some t0 \<and> (t0 + MAX_RUN_DURATION_MS, rid) \<in> set (timers s')"
    if "rid \<in> set (getActiveAgentRunIds s')" for rid
  proof -
    from that i have r: "rid \<in> set (getActiveAgentRunIds s)"
      and nd: "rid \<notin> snd ` {t \<in> set (timers s). fst t \<le> now s + d}" by auto
    from r assms obtain t0 where t0: "runStartTimes s rid = Some t0"
      "(t0 + MAX_RUN_DURATION_MS, rid) \<in> set (timers s)"
      by (auto simp: timers_ok_def)
    from nd t0 have "now s + d < t0 + MAX_RUN_DURATION_MS" by force
    then show ?thesis using t0 st nd t by simp
  qed
  moreover have "\<forall>t \<in> set (timers s'). now s' < fst t \<and> fst t \<le> now s' + MAX_RUN_DURATION_MS"
    using assms t n by (auto simp: timers_ok_def) 
  ultimately show ?thesis using a by (simp add: timers_ok_def)
qed

lemma advance_max_empties:
  assumes "timers_ok s" and "MAX_RUN_DURATION_MS \<le> d"
  shows "getActiveAgentRunIds (state_of (advance d s)) = []"
proof -
  obtain s' where a: "advance d s = Returned s'"
     and i: "getActiveAgentRunIds s' =
         filter (\<lambda>k. k \<notin> snd ` {t \<in> set (timers s). fst t \<le> now s + d}) (getActiveAgentRunIds s)"
    using advance_effect [of d s] by blast
  have "rid \<in> snd ` {t \<in> set (timers s). fst t \<le> now s + d}"
    if "rid \<in> set (getActiveAgentRunIds s)" for rid
  proof -
    from that assms obtain t0 where t0: "(t0 + MAX_RUN_DURATION_MS, rid) \<in> set (timers s)"
      by (auto simp: timers_ok_def)
    with assms have "t0 + MAX_RUN_DURATION_MS \<le> now s + d"
      by (force simp: timers_ok_def)
    with t0 show ?thesis by force
  qed
  then show ?thesis using a i by (simp add: filter_empty_conv)
qed

lemma timers_ok_initial: "timers_ok (initial_state t w)"
  by (simp add: timers_ok_def initial_state_def getActiveAgentRunIds_def)

lemma timers_ok_perform:
  assumes "timers_ok s"
  shows "timers_ok (state_of (perform a s))"
proof (cases a)
  case (DoRegister rid c)
  then show ?thesis using assms by (simp add: timers_ok_register)
next
  case (DoClear rid)
  then show ?thesis using assms by (simp add: timers_ok_clear)
next
  case (DoEmit event)
  then show ?thesis
    using assms by (simp add: emit_returns timers_ok_def getActiveAgentRunIds_def)
next
  case (DoAdvance d)
  then show ?thesis using assms by (simp add: timers_ok_advance)
next
  case (DoOnAgentEvent l)
  then show ?thesis
    using assms by (simp add: onAgentEvent_def timers_ok_def getActiveAgentRunIds_def)
next
  case (DoOffAgentEvent h)
  then show ?thesis
    using assms by (simp add: unsubscribeAgentEvent_def timers_ok_def getActiveAgentRunIds_def)
next
  case (DoOnAgentRunComplete cb)
  then show ?thesis
    using assms by (simp add: onAgentRunComplete_def timers_ok_def getActiveAgentRunIds_def)
next
  case (DoOffAgentRunComplete h)
  then show ?thesis
    using assms by (simp add: unsubscribeRunComplete_def timers_ok_def getActiveAgentRunIds_def)
qed

lemma timers_ok_perform_all:
  "timers_ok s \<Longrightarrow> timers_ok (state_of (perform_all acts s))"
proof (induction acts arbitrary: s)
  case Nil
  then show ?case by simp
next
  case (Cons a acts)
  obtain s1 where p: "perform a s = Returned s1" using perform_returns by blast
  then have "timers_ok s1" using timers_ok_perform [OF Cons.prems, of a] by simp
  then show ?case using Cons.IH [of s1] p by simp
qed

lemma timers_ok_age:
  assumes "timers_ok s" and "rid \<in> set (getActiveAgentRunIds s)"
  shows "\<exists>t0. runStartTimes s rid = Some t0 \<and> now s < t0 + MAX_RUN_DURATION_MS"
proof -
  from assms obtain t0 where "runStartTimes s rid = Some t0"
    and "(t0 + MAX_RUN_DURATION_MS, rid) \<in> set (timers s)"
    by (auto simp: timers_ok_def)
  moreover from this assms have "now s < t0 + MAX_RUN_DURATION_MS"
    by (force simp: timers_ok_def)
  ultimately show ?thesis by simp
qed

lemma stale_run_evicted:
  assumes "rid \<noteq> []" and "MAX_RUN_DURATION_MS \<le> d"
  shows "\<exists>s1 s2.
      registerAgentRunContext rid c ((initial_state t w)\<lparr>runCompletionCallbacks := cbs\<rparr>)
        = Returned s1
      \<and> getActiveAgentRunIds s1 = [rid]
      \<and> advance d s1 = Returned s2
      \<and> getActiveAgentRunIds s2 = []
      \<and> world s2 = foldl (\<lambda>w cb. state_of (snd cb [] w)) w cbs
      \<and> agentLog s2 = [Debug (RunRegistered rid 1),
                        Warn (ForceClearingStale rid MAX_RUN_DURATION_MS),
                        Debug (RunCleared rid 0)]
      \<and> now s2 = t + d"
  using assms
  by (simp add: register_new initial_state_def getActiveAgentRunIds_def advance_def Let_def
        fire_timer_def stale_run_timeout_def clear_present try_catch_ignore_state_of)

text \<open>
  C6: the maximum lifetime is the constant \<open>MAX_RUN_DURATION_MS\<close>, ten minutes.
  Registering a new id records its start time and sets a timer due one maximum lifetime
  later. When the closure of that timer runs and the id is still registered, it does what
  \<open>clearAgentRunContext\<close> does, after a warning of its own in the log: the record is
  removed and every completion subscriber is called. So a run that is registered and
  never cleared is gone once the clock has moved on by the maximum lifetime, with the
  subscribers called and the warning logged. In every state reached from the initial
  state by any sequence of calls and time steps, each registered run is younger than the
  maximum lifetime, and a further time step of at least the maximum lifetime leaves the
  registry empty.
\<close>

theorem stale_eviction:
  "MAX_RUN_DURATION_MS = 600000
   \<and> (rid \<noteq> [] \<and> getAgentRunContext rid s = None \<longrightarrow>
        (\<exists>s'. registerAgentRunContext rid c s = Returned s'
            \<and> runStartTimes s' rid = Some (now s)
            \<and> timers s' = timers s @ [(now s + MAX_RUN_DURATION_MS, rid)]))
   \<and> (getAgentRunContext rid2 s2 \<noteq> None \<longrightarrow>
        stale_run_timeout rid2 s2 =
          clearAgentRunContext rid2
            (s2\<lparr>agentLog := agentLog s2 @ [Warn (ForceClearingStale rid2 MAX_RUN_DURATION_MS)]\<rparr>)
        \<and> (\<exists>s'. stale_run_timeout rid2 s2 = Returned s'
             \<and> getAgentRunContext rid2 s' = None
             \<and> world s' = foldl (\<lambda>w cb. state_of (snd cb (runContextById s') w))
                             (world s2) (runCompletionCallbacks s2)
             \<and> agentLog s' = agentLog s2 @
                  [Warn (ForceClearingStale rid2 MAX_RUN_DURATION_MS),
                   Debug (RunCleared rid2 (length (runContextById s')))]))
   \<and> (rid3 \<noteq> [] \<and> MAX_RUN_DURATION_MS \<le> d \<longrightarrow>
        (\<exists>sa sb.
          registerAgentRunContext rid3 c ((initial_state t w)\<lparr>runCompletionCallbacks := cbs\<rparr>)
            = Returned sa
          \<and> getActiveAgentRunIds sa = [rid3]
          \<and> advance d sa = Returned sb
          \<and> getActiveAgentRunIds sb = []
          \<and> world sb = foldl (\<lambda>w cb. state_of (snd cb [] w)) w cbs
          \<and> agentLog sb = [Debug (RunRegistered rid3 1),
                            Warn (ForceClearingStale rid3 MAX_RUN_DURATION_MS),
                            Debug (RunCleared rid3 0)]))
   \<and> (rid4 \<in> set (getActiveAgentRunIds (state_of (perform_all acts (initial_state t w)))) \<longrightarrow>
        (\<exists>t0. runStartTimes (state_of (perform_all acts (initial_state t w))) rid4 = Some t0
            \<and> now (state_of (perform_all acts (initial_state t w))) < t0 + MAX_RUN_DURATION_MS))
   \<and> (MAX_RUN_DURATION_MS \<le> d \<longrightarrow>
        getActiveAgentRunCount
          (state_of (advance d (state_of (perform_all acts (initial_state t w))))) = 0)"
proof -
  have ok: "timers_ok (state_of (perform_all acts (initial_state t w)))"
    by (simp add: timers_ok_perform_all timers_ok_initial)
  have a: "rid \<noteq> [] \<and> getAgentRunContext rid s = None \<longrightarrow>
        (\<exists>s'. registerAgentRunContext rid c s = Returned s'
            \<and> runStartTimes s' rid = Some (now s)
            \<and> timers s' = timers s @ [(now s + MAX_RUN_DURATION_MS, rid)])"
    by (simp add: getAgentRunContext_def register_new)
  have b: "getAgentRunContext rid2 s2 \<noteq> None \<longrightarrow>
        stale_run_timeout rid2 s2 =
          clearAgentRunContext rid2
            (s2\<lparr>agentLog := agentLog s2 @ [Warn (ForceClearingStale rid2 MAX_RUN_DURATION_MS)]\<rparr>)
        \<and> (\<exists>s'. stale_run_timeout rid2 s2 = Returned s'
             \<and> getAgentRunContext rid2 s' = None
             \<and> world s' = foldl (\<lambda>w cb. state_of (snd cb (runContextById s') w))
                             (world s2) (runCompletionCallbacks s2)
             \<and> agentLog s' = agentLog s2 @
                  [Warn (ForceClearingStale rid2 MAX_RUN_DURATION_MS),
                   Debug (RunCleared rid2 (length (runContextById s')))])"
    by (simp add: getAgentRunContext_def stale_run_timeout_def clear_present
          try_catch_ignore_state_of AList.delete_conv')
  have e: "MAX_RUN_DURATION_MS \<le> d \<longrightarrow>
        getActiveAgentRunCount
          (state_of (advance d (state_of (perform_all acts (initial_state t w))))) = 0"
    using advance_max_empties [OF ok, of d]
    by (simp add: getActiveAgentRunCount_def getActiveAgentRunIds_def)
  have m: "MAX_RUN_DURATION_MS = 600000"
    by (simp add: MAX_RUN_DURATION_MS_def)
  have c3: "rid3 \<noteq> [] \<and> MAX_RUN_DURATION_MS \<le> d \<longrightarrow>
        (\<exists>sa sb.
          registerAgentRunContext rid3 c ((initial_state t w)\<lparr>runCompletionCallbacks := cbs\<rparr>)
            = Returned sa
          \<and> getActiveAgentRunIds sa = [rid3]
          \<and> advance d sa = Returned sb
          \<and> getActiveAgentRunIds sb = []
          \<and> world sb = foldl (\<lambda>w cb. state_of (snd cb [] w)) w cbs
          \<and> agentLog sb = [Debug (RunRegistered rid3 1),
                            Warn (ForceClearingStale rid3 MAX_RUN_DURATION_MS),
                            Debug (RunCleared rid3 0)])"
    using stale_run_evicted [where rid = rid3 and d = d and c = c and t = t and w = w
        and cbs = cbs]
    by blast
  have d4: "rid4 \<in> set (getActiveAgentRunIds (state_of (perform_all acts (initial_state t w)))) \<longrightarrow>
        (\<exists>t0. runStartTimes (state_of (perform_all acts (initial_state t w))) rid4 = Some t0
            \<and> now (state_of (perform_all acts (initial_state t w))) < t0 + MAX_RUN_DURATION_MS)"
    using timers_ok_age [OF ok, of rid4] by blast
  show ?thesis
    using m a b c3 d4 e by blast
qed

theorem stale_eviction_witness:
  "''r1'' \<noteq> []
   \<and> getAgentRunContext ''r1'' (initial_state 0 ([]::nat list)) = None
   \<and> timers (state_of (registerAgentRunContext ''r1'' empty_context
        (initial_state 0 ([]::nat list)))) = [(600000, ''r1'')]
   \<and> getAgentRunContext ''r1'' counting_state \<noteq> None
   \<and> getAgentRunContext ''r1'' (state_of (stale_run_timeout ''r1'' counting_state)) = None
   \<and> world (state_of (stale_run_timeout ''r1'' counting_state)) = [0]
   \<and> MAX_RUN_DURATION_MS \<le> 600000
   \<and> ''r1'' \<in> set (getActiveAgentRunIds (state_of (perform_all example_actions (initial_state 0 []))))
   \<and> now (state_of (perform_all example_actions (initial_state 0 []))) = 1000
   \<and> getActiveAgentRunCount
        (state_of (advance 600000 (state_of (perform_all example_actions (initial_state 0 [])))))
      = 0"
proof -
  note th = stale_eviction
    [where rid = "''r1''" and s = "initial_state 0 ([]::nat list)" and c = empty_context
       and ?rid2.0 = "''r1''" and ?s2.0 = counting_state
       and ?rid3.0 = "''r1''" and d = 600000 and t = 0 and w = "[]::nat list"
       and cbs = "[(1, \<lambda>view w. Returned (w @ [length view]))]"
       and ?rid4.0 = "''r1''" and acts = example_actions]
  have m: "MAX_RUN_DURATION_MS \<le> 600000"
    by (simp add: MAX_RUN_DURATION_MS_def)
  have a: "getAgentRunContext ''r1'' (initial_state 0 ([]::nat list)) = None"
    by (simp add: getAgentRunContext_def initial_state_def)
  have b: "getAgentRunContext ''r1'' counting_state \<noteq> None"
    by (simp add: counting_state_def getAgentRunContext_def registerAgentRunContext_def
        onAgentRunComplete_def initial_state_def Let_def)
  have w0: "world counting_state = []"
    by (simp add: counting_state_def registerAgentRunContext_def
        onAgentRunComplete_def initial_state_def Let_def)
  have cb: "runCompletionCallbacks counting_state = [(1, \<lambda>view w. Returned (w @ [length view]))]"
    by (simp add: counting_state_def registerAgentRunContext_def
        onAgentRunComplete_def initial_state_def Let_def set_add_def)
  have rc: "runContextById counting_state = [(''r1'', empty_context)]"
    by (simp add: counting_state_def registerAgentRunContext_def
        onAgentRunComplete_def initial_state_def Let_def)
  have p: "perform_all example_actions (initial_state 0 []) =
      Returned ((initial_state 0 [])\<lparr>
         runCompletionCallbacks := [(1, \<lambda>view w. Returned (w @ [length view]))],
         runContextById := [(''r1'', empty_context)],
         runStartTimes := [''r1'' \<mapsto> 0],
         timers := [(600000, ''r1'')],
         agentLog := [Debug (RunRegistered ''r1'' 1)],
         now := 1000\<rparr>)"
    by (simp add: example_actions_def initial_state_def onAgentRunComplete_def set_add_def
        registerAgentRunContext_def advance_def Let_def MAX_RUN_DURATION_MS_def)
  have t1: "timers (state_of (registerAgentRunContext ''r1'' empty_context
        (initial_state 0 ([]::nat list)))) = [(600000, ''r1'')]"
    by (simp add: registerAgentRunContext_def initial_state_def Let_def MAX_RUN_DURATION_MS_def)
  have s1: "getAgentRunContext ''r1'' (state_of (stale_run_timeout ''r1'' counting_state)) = None
     \<and> world (state_of (stale_run_timeout ''r1'' counting_state)) = [0]"
    by (simp add: stale_run_timeout_def clear_present rc cb w0 getAgentRunContext_def)
  have e: "getActiveAgentRunCount
        (state_of (advance 600000 (state_of (perform_all example_actions (initial_state 0 [])))))
      = 0"
    using th [THEN conjunct2, THEN conjunct2, THEN conjunct2, THEN conjunct2, THEN conjunct2] m
    by blast
  show ?thesis
    using a t1 b s1 m e by (simp add: p getActiveAgentRunIds_def)
qed

lemma perform_all_cons:
  "state_of (perform_all (a # acts) s) = state_of (perform_all acts (state_of (perform a s)))"
proof -
  obtain s1 where "perform a s = Returned s1" using perform_returns by blast
  then show ?thesis by simp
qed

text \<open>
  A timer that \<open>clearAgentRunContext\<close> left pending still runs when it is due. When the
  id of its run has been registered again in the meantime, the closure finds the id
  registered and clears it: the second run of \<open>reregister_actions\<close>, registered at one
  second, is still there just before ten minutes and gone at ten minutes.
\<close>

lemma stale_timer_outlives_clear:
  "getActiveAgentRunIds (state_of (perform_all (reregister_actions 598999) (initial_state 0 ())))
     = [''r1'']
   \<and> getActiveAgentRunIds (state_of (perform_all (reregister_actions 599000) (initial_state 0 ())))
     = []
   \<and> runStartTimes (state_of (perform_all (reregister_actions 598999) (initial_state 0 ())))
        ''r1'' = Some 1000"
proof -
  let ?s1 = "(initial_state 0 ())\<lparr>runContextById := [(''r1'', empty_context)],
                 runStartTimes := [''r1'' \<mapsto> 0],
                 timers := [(600000, ''r1'')],
                 agentLog := [Debug (RunRegistered ''r1'' 1)]\<rparr>"
  have a: "perform (DoRegister ''r1'' empty_context) (initial_state 0 ()) = Returned ?s1"
    by (simp add: register_new initial_state_def MAX_RUN_DURATION_MS_def)
  let ?s2 = "(initial_state 0 ())\<lparr>runContextById := [],
                 runStartTimes := Map.empty,
                 timers := [(600000, ''r1'')],
                 agentLog := [Debug (RunRegistered ''r1'' 1), Debug (RunCleared ''r1'' 0)]\<rparr>"
  have b: "perform (DoClear ''r1'') ?s1 = Returned ?s2"
    by (simp add: clear_present initial_state_def)
  let ?s3 = "?s2\<lparr>now := 1000\<rparr>"
  have c: "perform (DoAdvance 1000) ?s2 = Returned ?s3"
    by (simp add: advance_def Let_def initial_state_def)
  let ?s4 = "?s3\<lparr>runContextById := [(''r1'', empty_context)],
                 runStartTimes := [''r1'' \<mapsto> 1000],
                 timers := [(600000, ''r1''), (601000, ''r1'')],
                 agentLog := [Debug (RunRegistered ''r1'' 1), Debug (RunCleared ''r1'' 0),
                              Debug (RunRegistered ''r1'' 1)]\<rparr>"
  have d: "perform (DoRegister ''r1'' empty_context) ?s3 = Returned ?s4"
    by (simp add: register_new initial_state_def MAX_RUN_DURATION_MS_def)
  have e1: "getActiveAgentRunIds (state_of (perform (DoAdvance 598999) ?s4)) = [''r1'']"
    and e3: "runStartTimes (state_of (perform (DoAdvance 598999) ?s4)) ''r1'' = Some 1000"
    by (simp_all add: advance_def Let_def initial_state_def getActiveAgentRunIds_def)
  have e2: "getActiveAgentRunIds (state_of (perform (DoAdvance 599000) ?s4)) = []"
    by (simp add: advance_def Let_def initial_state_def getActiveAgentRunIds_def
        fire_timer_def stale_run_timeout_def clear_present)
  show ?thesis
    unfolding reregister_actions_def perform_all_cons a b c d state_of.simps
    using e1 e2 e3 by simp
qed

section \<open>Properties of the restart coordinator\<close>

lemma count_ids: "getActiveAgentRunCount s = length (getActiveAgentRunIds s)"
  by (simp add: getActiveAgentRunCount_def getActiveAgentRunIds_def)

lemma clear_world_coordinator:
  assumes "runCompletionCallbacks s = [(h, coordinator_callback)]"
  shows "world (state_of (clearAgentRunContext rid s)) =
     (if rid \<in> set (getActiveAgentRunIds s)
      then onRunCompleted (getActiveAgentRunCount (state_of (clearAgentRunContext rid s))) (world s)
      else world s)"
proof (cases "map_of (runContextById s) rid = None")
  case True
  then show ?thesis using map_of_None_ids [of s rid] by (simp add: clear_absent)
next
  case False
  then have "rid \<in> set (getActiveAgentRunIds s)" using map_of_None_ids [of s rid] by simp
  then show ?thesis
    using False assms
    by (simp add: clear_present coordinator_callback_def getActiveAgentRunCount_def)
qed

lemma clear_count_le:
  "getActiveAgentRunCount (state_of (clearAgentRunContext rid s)) \<le> getActiveAgentRunCount s"
  by (simp add: count_ids clear_ids)

lemma register_count_ge:
  "getActiveAgentRunCount s \<le> getActiveAgentRunCount (state_of (registerAgentRunContext rid c s))"
  by (simp add: count_ids register_ids)

lemma register_world: "world (state_of (registerAgentRunContext rid c s)) = world s"
  using register_cases [of rid c s] by auto

lemma register_callbacks:
  "runCompletionCallbacks (state_of (registerAgentRunContext rid c s)) = runCompletionCallbacks s"
  using register_cases [of rid c s] by auto

lemma onRunCompleted_bridge:
  "bridgeCalls (onRunCompleted n c) \<noteq> bridgeCalls c \<Longrightarrow> n = 0"
  by (auto simp: onRunCompleted_def split: if_splits)

lemma evaluate_bridge:
  "bridgeCalls (evaluate plan n c) \<noteq> bridgeCalls c \<Longrightarrow> n = 0"
  by (auto simp: evaluate_def split: classification.splits if_splits option.splits)

lemma clear_bridge:
  assumes "runCompletionCallbacks s = [(h, coordinator_callback)]"
    and "bridgeCalls (world (state_of (clearAgentRunContext rid s))) \<noteq> bridgeCalls (world s)"
  shows "getActiveAgentRunCount (state_of (clearAgentRunContext rid s)) = 0"
  using assms clear_world_coordinator [OF assms(1), of rid] onRunCompleted_bridge
  by (auto split: if_splits)

lemma stale_bridge:
  assumes "runCompletionCallbacks s = [(h, coordinator_callback)]"
    and "bridgeCalls (world (state_of (stale_run_timeout rid s))) \<noteq> bridgeCalls (world s)"
  shows "getActiveAgentRunCount (state_of (stale_run_timeout rid s)) = 0"
proof (cases "map_of (runContextById s) rid = None")
  case True
  then show ?thesis using assms by (simp add: stale_run_timeout_def)
next
  case False
  let ?s = "s\<lparr>agentLog := agentLog s @ [Warn (ForceClearingStale rid MAX_RUN_DURATION_MS)]\<rparr>"
  have "runCompletionCallbacks ?s = [(h, coordinator_callback)]" using assms by simp
  moreover have "bridgeCalls (world (state_of (clearAgentRunContext rid ?s))) \<noteq> bridgeCalls (world ?s)"
    using assms False by (simp add: stale_run_timeout_def)
  ultimately have "getActiveAgentRunCount (state_of (clearAgentRunContext rid ?s)) = 0"
    by (rule clear_bridge)
  then show ?thesis using False by (simp add: stale_run_timeout_def)
qed

lemma stale_count_le:
  "getActiveAgentRunCount (state_of (stale_run_timeout rid s)) \<le> getActiveAgentRunCount s"
  by (simp add: count_ids stale_ids)

lemma run_timers_bridge:
  assumes "runCompletionCallbacks s = [(h, coordinator_callback)]"
  shows "\<exists>s'. run_timers due s = Returned s'
     \<and> getActiveAgentRunCount s' \<le> getActiveAgentRunCount s
     \<and> (bridgeCalls (world s') \<noteq> bridgeCalls (world s) \<longrightarrow> getActiveAgentRunCount s' = 0)"
  using assms
proof (induction due arbitrary: s)
  case Nil
  show ?case by simp
next
  case (Cons t rest)
  let ?s = "s\<lparr>now := max (now s) (fst t)\<rparr>"
  obtain s1 where f: "fire_timer t s = Returned s1" using fire_returns by blast
  then have s1: "s1 = state_of (stale_run_timeout (snd t) ?s)"
    by (simp add: fire_timer_def)
  have cb: "runCompletionCallbacks ?s = [(h, coordinator_callback)]" using Cons.prems by simp
  have cb1: "runCompletionCallbacks s1 = [(h, coordinator_callback)]"
    unfolding s1 stale_callbacks using cb .
  have le1: "getActiveAgentRunCount s1 \<le> getActiveAgentRunCount s"
    unfolding s1 using stale_count_le [of "snd t" ?s] by (simp add: getActiveAgentRunCount_def)
  have br1: "bridgeCalls (world s1) \<noteq> bridgeCalls (world s) \<Longrightarrow> getActiveAgentRunCount s1 = 0"
    unfolding s1 using stale_bridge [OF cb, of "snd t"] by simp
  obtain s' where r: "run_timers rest s1 = Returned s'"
    and le: "getActiveAgentRunCount s' \<le> getActiveAgentRunCount s1"
    and br: "bridgeCalls (world s') \<noteq> bridgeCalls (world s1) \<longrightarrow> getActiveAgentRunCount s' = 0"
    using Cons.IH [OF cb1] by blast
  have "bridgeCalls (world s') \<noteq> bridgeCalls (world s) \<longrightarrow> getActiveAgentRunCount s' = 0"
    using br br1 le by (cases "bridgeCalls (world s1) = bridgeCalls (world s)") auto
  then show ?case using f r le le1 by simp
qed

lemma advance_bridge:
  assumes "runCompletionCallbacks s = [(h, coordinator_callback)]"
    and "bridgeCalls (world (state_of (advance d s))) \<noteq> bridgeCalls (world s)"
  shows "getActiveAgentRunCount (state_of (advance d s)) = 0"
proof -
  let ?due = "sort_key fst (filter (\<lambda>t. fst t \<le> now s + d) (timers s))"
  let ?s0 = "s\<lparr>timers := filter (\<lambda>t. now s + d < fst t) (timers s)\<rparr>"
  have "runCompletionCallbacks ?s0 = [(h, coordinator_callback)]" using assms by simp
  then obtain s' where r: "run_timers ?due ?s0 = Returned s'"
    and br: "bridgeCalls (world s') \<noteq> bridgeCalls (world ?s0) \<longrightarrow> getActiveAgentRunCount s' = 0"
    using run_timers_bridge [of ?s0 h ?due] by blast
  have a: "advance d s = Returned (s'\<lparr>now := now s + d\<rparr>)"
    using r by (simp add: advance_def Let_def)
  then show ?thesis using assms br by (simp add: getActiveAgentRunCount_def)
qed

lemma system_step_returns: "\<exists>s'. system_step a s = Returned s'"
proof (cases a)
  case (Call c)
  then show ?thesis by (simp add: do_call_returns)
next
  case (Evaluate plan)
  then show ?thesis by simp
next
  case (Tick d)
  then show ?thesis using advance_effect [of d s] by auto
qed

lemma system_step_callbacks:
  "runCompletionCallbacks (state_of (system_step a s)) = runCompletionCallbacks s"
proof (cases a)
  case (Call c)
  then show ?thesis by (cases c) (simp_all add: register_callbacks clear_callbacks)
next
  case (Evaluate plan)
  then show ?thesis by (simp add: system_evaluate_def)
next
  case (Tick d)
  then show ?thesis using advance_effect [of d s] by auto
qed

lemma system_step_bridge:
  assumes "runCompletionCallbacks s = [(h, coordinator_callback)]"
    and "bridgeCalls (world (state_of (system_step a s))) \<noteq> bridgeCalls (world s)"
  shows "getActiveAgentRunCount (state_of (system_step a s)) = 0"
proof (cases a)
  case (Call c)
  show ?thesis
  proof (cases c)
    case (Register rid x)
    then show ?thesis using assms Call by (simp add: register_world)
  next
    case (Clear rid)
    then show ?thesis using assms Call clear_bridge [OF assms(1), of rid] by simp
  qed
next
  case (Evaluate plan)
  then show ?thesis
    using assms evaluate_bridge [of plan "getActiveAgentRunCount s" "world s"]
    by (simp add: system_evaluate_def getActiveAgentRunCount_def)
next
  case (Tick d)
  then show ?thesis using assms advance_bridge [OF assms(1), of d] by simp
qed

lemma system_run_returns: "\<exists>s'. system_run acts s = Returned s'"
proof (induction acts arbitrary: s)
  case Nil
  show ?case by simp
next
  case (Cons a acts)
  obtain s1 where "system_step a s = Returned s1" using system_step_returns by blast
  with Cons [of s1] show ?case by simp
qed

lemma system_run_induct_inv:
  assumes "P s" and "\<And>a s. P s \<Longrightarrow> P (state_of (system_step a s))"
  shows "P (state_of (system_run acts s))"
  using assms(1)
proof (induction acts arbitrary: s)
  case Nil
  then show ?case by simp
next
  case (Cons a acts)
  obtain s1 where p: "system_step a s = Returned s1" using system_step_returns by blast
  then have "P s1" using assms(2) [OF Cons.prems, of a] by simp
  then show ?case using Cons.IH [of s1] p by simp
qed

lemma timers_ok_world: "timers_ok (s\<lparr>world := w\<rparr>) = timers_ok s"
  by (simp add: timers_ok_def getActiveAgentRunIds_def)

lemma timers_ok_system_step:
  assumes "timers_ok s"
  shows "timers_ok (state_of (system_step a s))"
proof (cases a)
  case (Call c)
  then show ?thesis
    using assms by (cases c) (simp_all add: timers_ok_register timers_ok_clear)
next
  case (Evaluate plan)
  then show ?thesis using assms by (simp add: system_evaluate_def timers_ok_world)
next
  case (Tick d)
  then show ?thesis using assms by (simp add: timers_ok_advance)
qed

lemma onRunCompleted_ok:
  assumes "state c = PlanQueued \<longrightarrow> queuedRestart c \<noteq> None"
  shows "state (onRunCompleted n c) = PlanQueued \<longrightarrow>
           queuedRestart (onRunCompleted n c) \<noteq> None \<and> 0 < n"
  using assms
  by (auto simp: onRunCompleted_def request_restart_def split: option.splits)

lemma coordinator_ok_clear:
  assumes "coordinator_ok h s"
  shows "coordinator_ok h (state_of (clearAgentRunContext rid s))"
proof -
  have cb: "runCompletionCallbacks s = [(h, coordinator_callback)]"
    using assms by (simp add: coordinator_ok_def)
  have q: "state (world s) = PlanQueued \<longrightarrow> queuedRestart (world s) \<noteq> None"
    using assms by (simp add: coordinator_ok_def)
  show ?thesis
  proof (cases "rid \<in> set (getActiveAgentRunIds s)")
    case True
    then show ?thesis
      using cb clear_world_coordinator [OF cb, of rid] onRunCompleted_ok [OF q]
      by (simp add: coordinator_ok_def clear_callbacks)
  next
    case False
    then have "getActiveAgentRunCount (state_of (clearAgentRunContext rid s)) = getActiveAgentRunCount s"
      by (rule clear_count_absent)
    then show ?thesis
      using False assms clear_world_coordinator [OF cb, of rid]
      by (simp add: coordinator_ok_def clear_callbacks)
  qed
qed

lemma coordinator_ok_register:
  assumes "coordinator_ok h s"
  shows "coordinator_ok h (state_of (registerAgentRunContext rid c s))"
  using assms register_count_ge [of s rid c]
  by (auto simp: coordinator_ok_def register_world register_callbacks)

lemma coordinator_ok_evaluate:
  assumes "coordinator_ok h s"
  shows "coordinator_ok h (system_evaluate plan s)"
  using assms
  by (auto simp: coordinator_ok_def system_evaluate_def evaluate_def request_restart_def
        getActiveAgentRunCount_def split: classification.splits)

lemma coordinator_ok_field_updates:
  "coordinator_ok h (s\<lparr>now := n\<rparr>) = coordinator_ok h s"
  "coordinator_ok h (s\<lparr>timers := ts'\<rparr>) = coordinator_ok h s"
  "coordinator_ok h (s\<lparr>agentLog := l\<rparr>) = coordinator_ok h s"
  by (simp_all add: coordinator_ok_def getActiveAgentRunCount_def)

lemma coordinator_ok_stale:
  assumes "coordinator_ok h s"
  shows "coordinator_ok h (state_of (stale_run_timeout rid s))"
  using assms
  by (simp add: stale_run_timeout_def coordinator_ok_clear coordinator_ok_field_updates)

lemma coordinator_ok_run_timers:
  assumes "coordinator_ok h s"
  shows "coordinator_ok h (state_of (run_timers due s))"
  using assms
proof (induction due arbitrary: s)
  case Nil
  then show ?case by simp
next
  case (Cons t rest)
  obtain s1 where f: "fire_timer t s = Returned s1" using fire_returns by blast
  then have "s1 = state_of (stale_run_timeout (snd t) (s\<lparr>now := max (now s) (fst t)\<rparr>))"
    by (simp add: fire_timer_def)
  then have "coordinator_ok h s1"
    using Cons.prems by (simp add: coordinator_ok_stale coordinator_ok_field_updates)
  then show ?case using Cons.IH [of s1] f by simp
qed

lemma advance_unfold:
  "advance d s =
     Returned ((state_of (run_timers (sort_key fst (filter (\<lambda>t. fst t \<le> now s + d) (timers s)))
                  (s\<lparr>timers := filter (\<lambda>t. now s + d < fst t) (timers s)\<rparr>)))
               \<lparr>now := now s + d\<rparr>)"
proof -
  obtain s' where "run_timers (sort_key fst (filter (\<lambda>t. fst t \<le> now s + d) (timers s)))
                  (s\<lparr>timers := filter (\<lambda>t. now s + d < fst t) (timers s)\<rparr>) = Returned s'"
    using run_timers_effect by blast
  then show ?thesis by (simp add: advance_def Let_def)
qed

lemma coordinator_ok_advance:
  assumes "coordinator_ok h s"
  shows "coordinator_ok h (state_of (advance d s))"
  using assms
  by (simp add: advance_unfold coordinator_ok_field_updates coordinator_ok_run_timers)

lemma coordinator_ok_system_step:
  assumes "coordinator_ok h s"
  shows "coordinator_ok h (state_of (system_step a s))"
proof (cases a)
  case (Call c)
  then show ?thesis
    using assms by (cases c) (simp_all add: coordinator_ok_register coordinator_ok_clear)
next
  case (Evaluate plan)
  then show ?thesis using assms by (simp add: coordinator_ok_evaluate)
next
  case (Tick d)
  then show ?thesis using assms by (simp add: coordinator_ok_advance)
qed

lemma coordinator_ok_initial: "coordinator_ok h (initial_system t h)"
  by (simp add: coordinator_ok_def initial_system_def onAgentRunComplete_def set_add_def
      initial_state_def initial_coordinator_def)

lemma timers_ok_initial_system: "timers_ok (initial_system t h)"
  by (simp add: timers_ok_def initial_system_def onAgentRunComplete_def
      initial_state_def getActiveAgentRunIds_def)

lemma reachable_ok:
  "coordinator_ok h (state_of (system_run acts (initial_system t h)))
   \<and> timers_ok (state_of (system_run acts (initial_system t h)))"
proof -
  have "coordinator_ok h (state_of (system_run acts (initial_system t h)))"
    by (rule system_run_induct_inv [where P = "coordinator_ok h"])
       (simp_all add: coordinator_ok_initial coordinator_ok_system_step)
  moreover have "timers_ok (state_of (system_run acts (initial_system t h)))"
    by (rule system_run_induct_inv [where P = timers_ok])
       (simp_all add: timers_ok_initial_system timers_ok_system_step)
  ultimately show ?thesis by simp
qed

lemma pending_stale:
  assumes "runCompletionCallbacks s = [(h, coordinator_callback)]"
    and "state c0 = PlanQueued" and "queuedRestart c0 = Some p"
    and "pending c0 p s"
  shows "pending c0 p (state_of (stale_run_timeout rid s))"
proof (cases "map_of (runContextById s) rid = None")
  case True
  then show ?thesis using assms by (simp add: stale_run_timeout_def)
next
  case False
  let ?s = "s\<lparr>agentLog := agentLog s @ [Warn (ForceClearingStale rid MAX_RUN_DURATION_MS)]\<rparr>"
  let ?s' = "state_of (clearAgentRunContext rid ?s)"
  have cb: "runCompletionCallbacks ?s = [(h, coordinator_callback)]" using assms by simp
  have r: "rid \<in> set (getActiveAgentRunIds ?s)"
    using False map_of_None_ids [of ?s rid] by auto
  have w: "world ?s' = onRunCompleted (getActiveAgentRunCount ?s') (world s)"
    using clear_world_coordinator [OF cb, of rid] r by simp
  have "pending c0 p ?s'"
    using assms(2-4) w
    by (auto simp: pending_def onRunCompleted_def applied_def request_restart_def)
  then show ?thesis using False by (simp add: stale_run_timeout_def)
qed

lemma pending_run_timers:
  assumes "runCompletionCallbacks s = [(h, coordinator_callback)]"
    and "state c0 = PlanQueued" and "queuedRestart c0 = Some p"
    and "pending c0 p s"
  shows "pending c0 p (state_of (run_timers due s))"
  using assms(1,4)
proof (induction due arbitrary: s)
  case Nil
  then show ?case by simp
next
  case (Cons t rest)
  let ?s = "s\<lparr>now := max (now s) (fst t)\<rparr>"
  obtain s1 where f: "fire_timer t s = Returned s1" using fire_returns by blast
  then have s1: "s1 = state_of (stale_run_timeout (snd t) ?s)"
    by (simp add: fire_timer_def)
  have cb: "runCompletionCallbacks ?s = [(h, coordinator_callback)]" using Cons.prems by simp
  have "pending c0 p ?s" using Cons.prems by (simp add: pending_def getActiveAgentRunCount_def)
  then have p1: "pending c0 p s1"
    unfolding s1 using pending_stale [OF cb assms(2,3)] by simp
  have cb1: "runCompletionCallbacks s1 = [(h, coordinator_callback)]"
    unfolding s1 stale_callbacks using cb .
  show ?case using Cons.IH [OF cb1 p1] f by simp
qed

lemma queued_restart_applied:
  assumes "coordinator_ok h s" and "timers_ok s"
    and "state (world s) = PlanQueued" and "MAX_RUN_DURATION_MS \<le> d"
  shows "\<exists>p. queuedRestart (world s) = Some p
     \<and> world (state_of (advance d s)) = applied p (world s)
     \<and> getActiveAgentRunCount (state_of (advance d s)) = 0"
proof -
  from assms(1,3) obtain p where q: "queuedRestart (world s) = Some p"
    and n: "0 < getActiveAgentRunCount s"
    and cb: "runCompletionCallbacks s = [(h, coordinator_callback)]"
    by (auto simp: coordinator_ok_def)
  let ?due = "sort_key fst (filter (\<lambda>t. fst t \<le> now s + d) (timers s))"
  let ?s0 = "s\<lparr>timers := filter (\<lambda>t. now s + d < fst t) (timers s)\<rparr>"
  let ?s1 = "state_of (run_timers ?due ?s0)"
  have "pending (world s) p ?s0"
    using n by (simp add: pending_def getActiveAgentRunCount_def)
  moreover have "runCompletionCallbacks ?s0 = [(h, coordinator_callback)]" using cb by simp
  ultimately have "pending (world s) p ?s1"
    using pending_run_timers [of ?s0 h "world s" p ?due] assms(3) q by simp
  then have pe: "pending (world s) p (state_of (advance d s))"
    by (simp add: advance_unfold pending_def getActiveAgentRunCount_def)
  have z: "getActiveAgentRunCount (state_of (advance d s)) = 0"
    using advance_max_empties [OF assms(2,4)] by (simp add: count_ids)
  with pe have "world (state_of (advance d s)) = applied p (world s)"
    by (simp add: pending_def)
  with q z show ?thesis by simp
qed

lemma deferral_scenario:
  assumes "runContextById s = [(rid, c)]"
      and "runCompletionCallbacks s = [(h, coordinator_callback)]"
      and "classification plan = RestartRequired"
  shows "state (world (system_evaluate plan s)) = PlanQueued
     \<and> queuedRestart (world (system_evaluate plan s)) = Some plan
     \<and> bridgeCalls (world (system_evaluate plan s)) = bridgeCalls (world s)
     \<and> (\<exists>s'. clearAgentRunContext rid (system_evaluate plan s) = Returned s'
          \<and> getActiveAgentRunCount s' = 0
          \<and> state (world s') = Applying
          \<and> bridgeCalls (world s') = bridgeCalls (world s) @ [reason plan])"
  using assms
  by (simp add: system_evaluate_def evaluate_def getActiveAgentRunCount_def clear_present
        coordinator_callback_def onRunCompleted_def request_restart_def)

text \<open>
  C1: with the coordinator's callback as the completion subscriber and exactly one run
  active, \<open>evaluate\<close> of a restart-required plan moves the coordinator to \<open>PlanQueued\<close>
  with the plan stored and makes no restart request; clearing that run then empties the
  registry and makes exactly one restart request, with the reason of the queued plan, and
  the coordinator is \<open>Applying\<close>. In the system run from its initial state through any
  sequence of \<open>register\<close> and \<open>clear\<close> calls, evaluations and time steps, every step
  returns, a step that makes a restart request ends with an empty registry, and a plan is
  queued only while a run is active; and when a plan is queued, a time step of the
  maximum run lifetime empties the registry and applies the queued plan with exactly one
  restart request.
\<close>

theorem restart_deferral:
  assumes "runContextById s = [(rid, c)]"
      and "runCompletionCallbacks s = [(h, coordinator_callback)]"
      and "classification plan = RestartRequired"
  shows "state (world (system_evaluate plan s)) = PlanQueued
     \<and> queuedRestart (world (system_evaluate plan s)) = Some plan
     \<and> bridgeCalls (world (system_evaluate plan s)) = bridgeCalls (world s)
     \<and> (\<exists>s'. clearAgentRunContext rid (system_evaluate plan s) = Returned s'
          \<and> getActiveAgentRunCount s' = 0
          \<and> state (world s') = Applying
          \<and> bridgeCalls (world s') = bridgeCalls (world s) @ [reason plan])
     \<and> returned (system_run acts (initial_system t h))
     \<and> returned (system_step a (state_of (system_run acts (initial_system t h))))
     \<and> (bridgeCalls (world (state_of (system_step a
             (state_of (system_run acts (initial_system t h))))))
          \<noteq> bridgeCalls (world (state_of (system_run acts (initial_system t h)))) \<longrightarrow>
        getActiveAgentRunCount (state_of (system_step a
             (state_of (system_run acts (initial_system t h))))) = 0)
     \<and> (state (world (state_of (system_run acts (initial_system t h)))) = PlanQueued \<longrightarrow>
        0 < getActiveAgentRunCount (state_of (system_run acts (initial_system t h))))
     \<and> (state (world (state_of (system_run acts (initial_system t h)))) = PlanQueued
          \<and> MAX_RUN_DURATION_MS \<le> d \<longrightarrow>
        (\<exists>p. queuedRestart (world (state_of (system_run acts (initial_system t h)))) = Some p
           \<and> getActiveAgentRunCount
               (state_of (advance d (state_of (system_run acts (initial_system t h))))) = 0
           \<and> state (world
               (state_of (advance d (state_of (system_run acts (initial_system t h))))))
              = Applying
           \<and> bridgeCalls (world
               (state_of (advance d (state_of (system_run acts (initial_system t h))))))
              = bridgeCalls (world (state_of (system_run acts (initial_system t h))))
                @ [reason p]))"
proof -
  let ?s = "state_of (system_run acts (initial_system t h))"
  have ok: "coordinator_ok h ?s" and tk: "timers_ok ?s"
    using reachable_ok [of h acts t] by simp_all
  then have cb: "runCompletionCallbacks ?s = [(h, coordinator_callback)]"
    by (simp add: coordinator_ok_def)
  have r1: "returned (system_run acts (initial_system t h))"
    using system_run_returns [of acts "initial_system t h"] by auto
  have r2: "returned (system_step a ?s)"
    using system_step_returns [of a ?s] by auto
  have safe: "bridgeCalls (world (state_of (system_step a ?s))) \<noteq> bridgeCalls (world ?s) \<longrightarrow>
        getActiveAgentRunCount (state_of (system_step a ?s)) = 0"
    using system_step_bridge [OF cb, of a] by blast
  have busy: "state (world ?s) = PlanQueued \<longrightarrow> 0 < getActiveAgentRunCount ?s"
    using ok by (simp add: coordinator_ok_def)
  have live: "state (world ?s) = PlanQueued \<and> MAX_RUN_DURATION_MS \<le> d \<longrightarrow>
        (\<exists>p. queuedRestart (world ?s) = Some p
           \<and> getActiveAgentRunCount (state_of (advance d ?s)) = 0
           \<and> state (world (state_of (advance d ?s))) = Applying
           \<and> bridgeCalls (world (state_of (advance d ?s))) = bridgeCalls (world ?s) @ [reason p])"
  proof
    assume a: "state (world ?s) = PlanQueued \<and> MAX_RUN_DURATION_MS \<le> d"
    then obtain p where "queuedRestart (world ?s) = Some p"
      and "world (state_of (advance d ?s)) = applied p (world ?s)"
      and "getActiveAgentRunCount (state_of (advance d ?s)) = 0"
      using queued_restart_applied [OF ok tk, of d] by blast
    then show "\<exists>p. queuedRestart (world ?s) = Some p
           \<and> getActiveAgentRunCount (state_of (advance d ?s)) = 0
           \<and> state (world (state_of (advance d ?s))) = Applying
           \<and> bridgeCalls (world (state_of (advance d ?s))) = bridgeCalls (world ?s) @ [reason p]"
      by (simp add: applied_def request_restart_def)
  qed
  show ?thesis
    using deferral_scenario [OF assms] r1 r2 safe busy live by blast
qed

lemma one_run_system_eq:
  "one_run_system =
     \<lparr> seqByRun = Map.empty, listeners = [], runContextById = [(''r1'', empty_context)],
       runCompletionCallbacks = [(1, coordinator_callback)],
       runStartTimes = [''r1'' \<mapsto> 0],
       now = 0, timers = [(600000, ''r1'')],
       agentLog = [Debug (RunRegistered ''r1'' 1)], world = initial_coordinator \<rparr>"
  by (simp add: one_run_system_def initial_system_def initial_state_def onAgentRunComplete_def
      set_add_def registerAgentRunContext_def Let_def MAX_RUN_DURATION_MS_def)

lemma queue_actions_run:
  "system_run queue_actions (initial_system 0 1) =
     Returned (system_evaluate restart_plan one_run_system)"
  by (simp add: queue_actions_def one_run_system_def register_returns
      split: result.splits)
     (metis register_returns result.distinct(1) state_of.simps(1))

theorem restart_deferral_witness:
  "runContextById one_run_system = [(''r1'', empty_context)]
   \<and> runCompletionCallbacks one_run_system = [(1, coordinator_callback)]
   \<and> classification restart_plan = RestartRequired
   \<and> state (world (system_evaluate restart_plan one_run_system)) = PlanQueued
   \<and> bridgeCalls (world (system_evaluate restart_plan one_run_system)) = []
   \<and> bridgeCalls (world (state_of (clearAgentRunContext ''r1''
         (system_evaluate restart_plan one_run_system)))) = [''gateway.testSetting changed'']
   \<and> state (world (state_of (system_run queue_actions (initial_system 0 1)))) = PlanQueued
   \<and> bridgeCalls (world (state_of (system_run queue_actions (initial_system 0 1)))) = []
   \<and> bridgeCalls (world (state_of (system_step (Call (Clear ''r1''))
         (state_of (system_run queue_actions (initial_system 0 1))))))
       = [''gateway.testSetting changed'']
   \<and> getActiveAgentRunCount (state_of (system_step (Call (Clear ''r1''))
         (state_of (system_run queue_actions (initial_system 0 1))))) = 0
   \<and> MAX_RUN_DURATION_MS \<le> 600000
   \<and> bridgeCalls (world (state_of (advance 600000
         (state_of (system_run queue_actions (initial_system 0 1))))))
       = [''gateway.testSetting changed'']"
proof -
  have h1: "runContextById one_run_system = [(''r1'', empty_context)]"
    by (simp add: one_run_system_eq)
  have h2: "runCompletionCallbacks one_run_system = [(1, coordinator_callback)]"
    by (simp add: one_run_system_eq)
  have h3: "classification restart_plan = RestartRequired"
    by (simp add: restart_plan_def)
  have w0: "bridgeCalls (world one_run_system) = []"
    by (simp add: one_run_system_eq initial_coordinator_def)
  have r: "reason restart_plan = ''gateway.testSetting changed''"
    by (simp add: restart_plan_def)
  have m: "MAX_RUN_DURATION_MS \<le> 600000"
    by (simp add: MAX_RUN_DURATION_MS_def)
  note th = restart_deferral [OF h1 h2 h3, where acts = queue_actions
      and a = "Call (Clear ''r1'')" and t = 0 and d = 600000]
  have q: "state_of (system_run queue_actions (initial_system 0 1))
      = system_evaluate restart_plan one_run_system"
    by (simp only: queue_actions_run state_of.simps)
  have e1: "state (world (system_evaluate restart_plan one_run_system)) = PlanQueued"
    and e2: "bridgeCalls (world (system_evaluate restart_plan one_run_system)) = []"
    and e3: "queuedRestart (world (system_evaluate restart_plan one_run_system)) = Some restart_plan"
    using th w0 by simp_all
  have e4: "bridgeCalls (world (state_of (clearAgentRunContext ''r1''
         (system_evaluate restart_plan one_run_system)))) = [''gateway.testSetting changed'']"
    and e5: "getActiveAgentRunCount (state_of (clearAgentRunContext ''r1''
         (system_evaluate restart_plan one_run_system))) = 0"
    using th w0 r by auto
  have "\<exists>p. queuedRestart (world (state_of (system_run queue_actions (initial_system 0 1)))) = Some p
       \<and> bridgeCalls (world
               (state_of (advance 600000 (state_of (system_run queue_actions (initial_system 0 1))))))
              = bridgeCalls (world (state_of (system_run queue_actions (initial_system 0 1))))
                @ [reason p]"
    using th m e1 unfolding q by blast
  then have e6: "bridgeCalls (world (state_of (advance 600000
         (state_of (system_run queue_actions (initial_system 0 1))))))
       = [''gateway.testSetting changed'']"
    unfolding q using e2 e3 r by auto
  show ?thesis
    unfolding q system_step.simps do_call.simps
    using h1 h2 h3 m e1 e2 e4 e5 e6 unfolding q by blast
qed

end
